theory Spec2Isabelle
  imports Main "HOL-Library.Word"
begin

section \<open>JavaScript strings\<close>

text \<open>
  The controller (class \<open>RobotController\<close>) works on JavaScript strings. A string is
  modelled as \<^typ>\<open>string\<close>, one \<^typ>\<open>char\<close> per UTF-16 code unit, for the code
  units U+0000 to U+00FF (the device speaks ASCII). Each helper below is the
  JavaScript method of the same name, with its behaviour at the edges written out.
\<close>

definition CR :: char where "CR = CHR 0x0D"
definition LF :: char where "LF = CHR 0x0A"

definition CRLF :: string where
  "CRLF = [CR, LF]"

text \<open>White space as \<open>String.prototype.trim\<close> and the regular expression class
  \<open>\s\<close> see it, restricted to the modelled code units: TAB, LF, VT, FF, CR, SP, NBSP.\<close>

definition isWhiteSpace :: "char \<Rightarrow> bool" where
  "isWhiteSpace c = (c \<in> set [CHR 0x09, CHR 0x0A, CHR 0x0B, CHR 0x0C, CHR 0x0D, CHR 0x20, CHR 0xA0])"

definition trim :: "string \<Rightarrow> string" where
  "trim s = rev (dropWhile isWhiteSpace (rev (dropWhile isWhiteSpace s)))"

definition startsWith :: "string \<Rightarrow> string \<Rightarrow> bool" where
  "startsWith s p = (take (length p) s = p)"

definition endsWith :: "string \<Rightarrow> string \<Rightarrow> bool" where
  "endsWith s p = (length p \<le> length s \<and> drop (length s - length p) s = p)"

text \<open>\<open>s.indexOf(pat)\<close>: the first index at which \<open>pat\<close> occurs; \<open>None\<close> is the
  source's \<open>-1\<close>.\<close>

fun indexOf :: "string \<Rightarrow> string \<Rightarrow> nat option" where
  "indexOf [] pat = (if pat = [] then Some 0 else None)"
| "indexOf (c # s) pat =
     (if startsWith (c # s) pat then Some 0 else map_option Suc (indexOf s pat))"

definition str_includes :: "string \<Rightarrow> string \<Rightarrow> bool" where
  "str_includes s pat = (indexOf s pat \<noteq> None)"

text \<open>\<open>s.substring(a, b)\<close>: both indices are clamped to the length and swapped when
  \<open>a > b\<close>.\<close>

definition substring :: "string \<Rightarrow> nat \<Rightarrow> nat \<Rightarrow> string" where
  "substring s a b =
     (let a' = min a (length s); b' = min b (length s);
          lo = min a' b'; hi = max a' b'
      in take (hi - lo) (drop lo s))"

text \<open>\<open>s.split(sep)\<close> for a one-character separator: the empty string splits into one
  empty piece, and a trailing separator leaves an empty last piece.\<close>

fun split :: "char \<Rightarrow> string \<Rightarrow> string list" where
  "split sep [] = [[]]"
| "split sep (c # s) =
     (if c = sep then [] # split sep s
      else (case split sep s of [] \<Rightarrow> [[c]] | l # ls \<Rightarrow> (c # l) # ls))"

text \<open>\<open>s.replace(/\r/g, '\n')\<close> and \<open>s.replace(/\r\n/g, '\n')\<close>.\<close>

definition replace_CR :: "string \<Rightarrow> string" where
  "replace_CR s = map (\<lambda>c. if c = CR then LF else c) s"

fun replace_CRLF :: "string \<Rightarrow> string" where
  "replace_CRLF (c # d # s) =
     (if c = CR \<and> d = LF then LF # replace_CRLF s else c # replace_CRLF (d # s))"
| "replace_CRLF s = s"

text \<open>Template interpolation of a number (\<open>`${bytes.length}`\<close>): its decimal digits.\<close>

definition digit :: "nat \<Rightarrow> char" where
  "digit d = char_of (of_char (CHR ''0'') + d)"

fun decimal :: "nat \<Rightarrow> string" where
  "decimal n = (if n < 10 then [digit n] else decimal (n div 10) @ [digit (n mod 10)])"

text \<open>\<open>Math.ceil(a / b)\<close> on lengths, for \<open>b > 0\<close>.\<close>

definition ceil_div :: "nat \<Rightarrow> nat \<Rightarrow> nat" where
  "ceil_div a b = (a + b - 1) div b"

section \<open>The controller\<close>

text \<open>
  \<open>bufferEntry\<close> is the object pushed by the background reader (its \<open>type\<close> field is
  always \<open>'received'\<close>), \<open>consumer\<close> the object of \<open>createBufferConsumer\<close>; its field
  \<open>consumer_id\<close> is the source's \<open>id\<close>.
\<close>

record bufferEntry =
  data :: string
  timestamp :: nat

record consumer =
  consumer_id :: string
  position :: nat

text \<open>Calls on the transport's objects and the steps of the cleanup, in program order.\<close>

datatype call =
    WriterWrite string
  | StopBackgroundReading
  | ReaderCancel
  | ReaderReleaseLock
  | WriterClose
  | PortClose
  | ClearBuffer
  | ClearConsumers
  | UpdateUIButtonStates

text \<open>
  The fields of \<open>RobotController\<close>; \<open>port\<close>, \<open>reader\<close>, \<open>writer\<close> and
  \<open>backgroundReadPromise\<close> say whether the field is non-null. Two fields stand for the
  world outside: \<open>calls\<close> records what the controller did, and \<open>polls\<close> holds what the
  coming calls of \<open>consumer.readWithTimeout(200)\<close> will return, the empty string
  being a timeout; once the script is used up the device stays silent and every
  further poll times out.
\<close>

record controller =
  port :: bool
  reader :: bool
  writer :: bool
  connected :: bool
  lastLineEcho :: string
  serialBuffer :: "bufferEntry list"
  backgroundReadActive :: bool
  backgroundReadPromise :: bool
  bufferConsumers :: "consumer list"
  lastBufferPosition :: nat
  calls :: "call list"
  polls :: "string list"

text \<open>\<open>this.chunkSize\<close> is set to 1024 by the constructor and never assigned again.\<close>

definition chunkSize :: nat where
  "chunkSize = 1024"

definition new_controller :: controller where
  "new_controller =
     \<lparr>port = False, reader = False, writer = False, connected = False,
      lastLineEcho = [], serialBuffer = [], backgroundReadActive = False,
      backgroundReadPromise = False, bufferConsumers = [], lastBufferPosition = 0,
      calls = [], polls = []\<rparr>"

datatype error =
    NotConnected            \<comment> \<open>'Not connected to device'\<close>
  | DeviceNotResponding     \<comment> \<open>'Device is not responding. ...'\<close>
  | FailedToSendLine        \<comment> \<open>'Failed to send line to device'\<close>
  | FailedAfterRetries      \<comment> \<open>'Failed to send line after retries'\<close>
  | FileNotFound string     \<comment> \<open>'File ... not found on device'\<close>
  | FailedToReadContent     \<comment> \<open>'Failed to read file content from device'\<close>
  | TypeError               \<comment> \<open>a method called on \<open>null\<close>\<close>
  | Rejected call           \<comment> \<open>a transport call whose promise rejects\<close>

section \<open>Background reader and buffer retention\<close>

text \<open>\<open>xs.slice(-k)\<close>: the last \<open>k\<close> elements, all of them when there are fewer.\<close>

definition slice_last :: "nat \<Rightarrow> 'a list \<Rightarrow> 'a list" where
  "slice_last k xs = drop (length xs - k) xs"

text \<open>The body of \<open>bufferConsumers.forEach\<close> in \<open>backgroundReadLoop\<close>.\<close>

definition adjustPosition :: "consumer \<Rightarrow> consumer" where
  "adjustPosition c =
     (if position c > 5000 then c\<lparr>position := position c - 5000\<rparr>
      else c\<lparr>position := 0\<rparr>)"

text \<open>The block \<open>if (chunk) { ... }\<close> of \<open>backgroundReadLoop\<close>: \<open>now\<close> is \<open>Date.now()\<close>.
  The display hook \<open>window.serialTerminal\<close> is outside the controller.\<close>

definition storeChunk :: "string \<Rightarrow> nat \<Rightarrow> controller \<Rightarrow> controller" where
  "storeChunk chunk now st =
     (if chunk = [] then st
      else
        let st1 = st\<lparr>serialBuffer := serialBuffer st @ [\<lparr>data = chunk, timestamp = now\<rparr>]\<rparr>
        in if length (serialBuffer st1) > 10000
           then st1\<lparr>serialBuffer := slice_last 5000 (serialBuffer st1),
                    bufferConsumers := map adjustPosition (bufferConsumers st1)\<rparr>
           else st1)"

text \<open>What \<open>reader.read()\<close> resolves to: end of stream, a decoded chunk with the time
  it arrived, or a rejection.\<close>

datatype readResult = Done | Value string nat | ReadError

text \<open>\<open>backgroundReadLoop\<close> over the reads that resolve; when they are used up the
  loop is blocked in \<open>reader.read()\<close>.\<close>

fun backgroundReadLoop :: "readResult list \<Rightarrow> controller \<Rightarrow> controller" where
  "backgroundReadLoop [] st = st"
| "backgroundReadLoop (r # rs) st =
     (if backgroundReadActive st \<and> connected st \<and> reader st
      then (case r of
              Done \<Rightarrow> st
            | Value chunk now \<Rightarrow> backgroundReadLoop rs (storeChunk chunk now st)
            | ReadError \<Rightarrow> backgroundReadLoop rs st)
      else st)"

text \<open>\<open>createBufferConsumer\<close>, the consumer's \<open>readNew\<close> and \<open>removeBufferConsumer\<close>;
  a registered consumer is named by its place \<open>k\<close> in the registry, below the size of
  the registry.\<close>

definition createBufferConsumer :: "string \<Rightarrow> controller \<Rightarrow> controller" where
  "createBufferConsumer consumerId st =
     st\<lparr>bufferConsumers := bufferConsumers st @
          [\<lparr>consumer_id = consumerId, position = length (serialBuffer st)\<rparr>]\<rparr>"

definition readNew :: "nat \<Rightarrow> controller \<Rightarrow> string \<times> controller" where
  "readNew k st =
     (let c = bufferConsumers st ! k;
          newData = drop (position c) (serialBuffer st)
      in (concat (map data newData),
          st\<lparr>bufferConsumers := (bufferConsumers st)[k := c\<lparr>position := length (serialBuffer st)\<rparr>]\<rparr>))"

definition removeBufferConsumer :: "nat \<Rightarrow> controller \<Rightarrow> controller" where
  "removeBufferConsumer k st =
     st\<lparr>bufferConsumers := take k (bufferConsumers st) @ drop (Suc k) (bufferConsumers st)\<rparr>"

section \<open>Prompt scanner and line sender\<close>

text \<open>One poll, \<open>await consumer.readWithTimeout(200)\<close>: the next entry of the script,
  or a timeout when the device has gone silent.\<close>

definition readWithTimeout :: "controller \<Rightarrow> string \<times> controller" where
  "readWithTimeout st =
     (case polls st of [] \<Rightarrow> ([], st) | p # ps \<Rightarrow> (p, st\<lparr>polls := ps\<rparr>))"

text \<open>The local variables of \<open>readUntilPrompt\<close>, and how one turn of its loop ends:
  going round again (\<open>continue\<close> or the end of the body), \<open>break\<close>, or \<open>return null\<close>.\<close>

record scan =
  receiveMode :: nat
  pending :: string
  retryCount :: nat
  output' :: string

datatype flow = Next scan | Break scan | ReturnNull

text \<open>The loop body from \<open>const stripped = processData.trim()\<close> to its end.\<close>

definition accumulate :: "scan \<Rightarrow> string \<Rightarrow> flow" where
  "accumulate sc processData =
     (let stripped = trim processData;
          sc' =
            (if endsWith stripped ''...'' \<or> endsWith stripped ''>>>''
             then Some (sc\<lparr>receiveMode := 2\<rparr>, substring stripped 0 (length stripped - 3))
             else if endsWith processData ''.'' \<or> endsWith processData ''>''
             then None
             else Some (sc, processData))
      in case sc' of
           None \<Rightarrow> Next (sc\<lparr>pending := processData\<rparr>)
         | Some (sc1, processData1) \<Rightarrow>
             let sc2 = sc1\<lparr>pending := [], output' := output' sc1 @ processData1\<rparr>
             in if receiveMode sc2 = 2 then Break sc2 else Next sc2)"

text \<open>The whole loop body, given the poll's result \<open>data\<close> (here \<open>data'\<close>).\<close>

definition scanBody :: "scan \<Rightarrow> string \<Rightarrow> controller \<Rightarrow> flow \<times> controller" where
  "scanBody sc data' st =
     (if data' = [] then
        (let sc1 = sc\<lparr>retryCount := retryCount sc + 1\<rparr>
         in if retryCount sc1 > 1 then (ReturnNull, st) else (Next sc1, st))
      else
        let processData = (if pending sc \<noteq> [] then pending sc @ data' else data')
        in if receiveMode sc = 0 then
             (case indexOf processData CRLF of
                None \<Rightarrow> (Next (sc\<lparr>pending := processData\<rparr>), st)
              | Some idx \<Rightarrow>
                  let sc1 = sc\<lparr>receiveMode := 1, pending := []\<rparr>;
                      st1 = st\<lparr>lastLineEcho := substring processData 0 idx\<rparr>;
                      processData1 = drop (idx + 2) processData
                  in if processData1 = [] then (Next sc1, st1)
                     else (accumulate sc1 processData1, st1))
           else (accumulate sc processData, st))"

function readUntilPrompt_loop :: "scan \<Rightarrow> controller \<Rightarrow> string option \<times> controller" where
  "readUntilPrompt_loop sc st =
     (if retryCount sc < 3 then
        (case scanBody sc (fst (readWithTimeout st)) (snd (readWithTimeout st)) of
           (ReturnNull, st2) \<Rightarrow> (None, st2)
         | (Break sc', st2) \<Rightarrow> (Some (output' sc'), st2)
         | (Next sc', st2) \<Rightarrow> readUntilPrompt_loop sc' st2)
      else (Some (output' sc), st))"
  by pat_completeness auto

termination
  by (relation "measure (\<lambda>(sc, st). length (polls st) + (3 - retryCount sc))")
     (auto simp: scanBody_def accumulate_def readWithTimeout_def Let_def
           split: if_splits option.splits list.splits prod.splits)

text \<open>Results of the asynchronous methods: the new controller, with either the error
  thrown or the value returned. \<open>on_ok\<close> runs the rest of a method after a call
  that did not throw.\<close>

type_synonym 'a result = "(error + 'a) \<times> controller"

definition on_ok :: "'a result \<Rightarrow> ('a \<Rightarrow> controller \<Rightarrow> 'b result) \<Rightarrow> 'b result" where
  "on_ok r f = (case r of (Inl e, st) \<Rightarrow> (Inl e, st) | (Inr x, st) \<Rightarrow> f x st)"

text \<open>\<open>readUntilPrompt\<close>: \<open>None\<close> is the source's \<open>null\<close>. The consumer it creates is
  the last of the registry and is removed again whatever the loop returns (the
  \<open>finally\<close> block); what the consumer reads is the poll script.\<close>

definition readUntilPrompt :: "controller \<Rightarrow> (string option) result" where
  "readUntilPrompt st =
     (if \<not> connected st then (Inl NotConnected, st)
      else
        let st0 = createBufferConsumer ''readUntilPrompt'' st;
            k = length (bufferConsumers st0) - 1;
            r = readUntilPrompt_loop
                  \<lparr>receiveMode = 0, pending = [], retryCount = 0, output' = []\<rparr> st0
        in (Inr (fst r), removeBufferConsumer k (snd r)))"

text \<open>\<open>sendLine\<close>: \<open>writer.write\<close> is taken to resolve; the text written is recorded
  before its UTF-8 encoding.\<close>

definition sendLine :: "string \<Rightarrow> controller \<Rightarrow> (string option) result" where
  "sendLine line st =
     (if \<not> connected st \<or> \<not> writer st then (Inl NotConnected, st)
      else readUntilPrompt (st\<lparr>calls := calls st @ [WriterWrite (line @ CRLF)]\<rparr>))"

section \<open>Transfer encoder\<close>

definition sq :: char where "sq = CHR 0x27"
definition dq :: char where "dq = CHR 0x22"

text \<open>The argument of \<open>wrapCodeHex\<close> is a string or a byte array.\<close>

datatype binCode = Str string | Bytes "8 word list"

text \<open>\<open>new TextEncoder().encode(s)\<close>, UTF-8, on the modelled code units.\<close>

definition encode :: "string \<Rightarrow> 8 word list" where
  "encode s =
     concat (map (\<lambda>c. let n = (of_char c :: nat)
                       in if n < 128 then [of_nat n]
                          else [of_nat (192 + n div 64), of_nat (128 + n mod 64)]) s)"

text \<open>\<open>b.toString(16).padStart(2, '0')\<close> for a byte.\<close>

definition hexDigit :: "nat \<Rightarrow> char" where
  "hexDigit d = ''0123456789abcdef'' ! d"

definition toHex :: "8 word \<Rightarrow> string" where
  "toHex b = [hexDigit (unat b div 16), hexDigit (unat b mod 16)]"

definition preamble :: "nat \<Rightarrow> string" where
  "preamble n =
     ''import gc; gc.collect(); b_ = bytearray('' @ decimal n @ ''); bi_ = 0'' @ CRLF"

text \<open>The four lines the loop over the chunks appends for one chunk.\<close>

definition chunkGroup :: "string \<Rightarrow> string" where
  "chunkGroup chunk =
     ''c_ = b'' @ [sq] @ chunk @ [sq] @ CRLF
     @ ''for i in range(len(c_)//2): b_[bi_+i] = int(c_[2*i:2*i+2], 16).to_bytes(1, ''
       @ [sq] @ ''little'' @ [sq] @ '')[0]'' @ CRLF
     @ ''_EMPTY_'' @ CRLF
     @ ''bi_ += len(c_)//2; print('' @ [dq] @ ''.'' @ [dq] @ '', end='' @ [dq, dq]
       @ ''); del c_; gc.collect()'' @ CRLF"

definition runLines :: string where
  "runLines =
     ''print('' @ [dq] @ '' Running.'' @ [dq] @ ''); print('' @ [dq] @ ''--------'' @ [dq]
       @ ''); b_ = b_.decode()'' @ CRLF
     @ ''exec(b_)'' @ CRLF
     @ ''del b_'' @ CRLF"

definition saveLines :: "string \<Rightarrow> bool \<Rightarrow> string" where
  "saveLines saveTo append' =
     (let writeMode = (if append' then ''ab'' else ''wb'')
      in ''f_ = open('' @ [sq] @ saveTo @ [sq] @ '', '' @ [sq] @ writeMode @ [sq] @ '')'' @ CRLF
         @ ''_ = f_.write(b_)'' @ CRLF
         @ ''f_.close();'' @ CRLF
         @ ''del f_; del b_; gc.collect(); print('' @ [dq] @ '' Done.'' @ [dq] @ '')'' @ CRLF)"

text \<open>\<open>wrapCodeHex(binCode, saveTo, append)\<close>; \<open>saveTo = None\<close> is \<open>null\<close>. The two
  \<open>for\<close> loops run over the bytes and over the chunk indices.\<close>

definition wrapCodeHex :: "binCode \<Rightarrow> string option \<Rightarrow> bool \<Rightarrow> string" where
  "wrapCodeHex binCode saveTo append' =
     (let bytes = (case binCode of Str s \<Rightarrow> encode s | Bytes bs \<Rightarrow> bs);
          hexStr = foldl (\<lambda>h b. h @ toHex b) [] bytes;
          out0 = preamble (length bytes);
          chunks = ceil_div (length hexStr) chunkSize;
          out1 = foldl (\<lambda>out i. out @ chunkGroup (substring hexStr (i * chunkSize) ((i + 1) * chunkSize)))
                   out0 [0..<chunks]
      in case saveTo of
           None \<Rightarrow> out1 @ runLines
         | Some f \<Rightarrow> out1 @ saveLines f append')"

section \<open>Raw executor\<close>

definition ctrlC :: string where "ctrlC = [CHR 0x03]"

text \<open>The opening of \<open>executeCodeRaw\<close> and of \<open>downloadCode\<close>: two interrupts, then
  the pending output is read; \<open>this.writer.write\<close> on a null writer is a type error.\<close>

definition interrupt :: "controller \<Rightarrow> unit result" where
  "interrupt st =
     (if \<not> writer st then (Inl TypeError, st)
      else
        on_ok (readUntilPrompt (st\<lparr>calls := calls st @ [WriterWrite ctrlC, WriterWrite ctrlC]\<rparr>))
          (\<lambda>data' st1. case data' of
                          None \<Rightarrow> (Inl DeviceNotResponding, st1)
                        | Some _ \<Rightarrow> (Inr (), st1)))"

text \<open>The loop \<open>for (let attempt = 0; attempt < 3; attempt++)\<close>; the value is the
  flag \<open>success\<close>.\<close>

function retryLoop :: "nat \<Rightarrow> string \<Rightarrow> controller \<Rightarrow> bool result" where
  "retryLoop attempt actualLine st =
     (if attempt < 3 then
        (case sendLine actualLine st of
           (Inl e, st') \<Rightarrow> (Inl e, st')
         | (Inr lineResult, st') \<Rightarrow>
             (case lineResult of
                None \<Rightarrow> retryLoop (attempt + 1) actualLine st'
              | Some text \<Rightarrow>
                  if \<not> str_includes text ''Traceback'' then (Inr True, st')
                  else retryLoop (attempt + 1) actualLine st'))
      else (Inr False, st))"
  by pat_completeness auto
termination
  by (relation "measure (\<lambda>(attempt, actualLine, st). 3 - attempt)") auto

text \<open>The body of \<open>for (const line of lines)\<close>.\<close>

definition executeLine :: "bool \<Rightarrow> string \<Rightarrow> controller \<Rightarrow> unit result" where
  "executeLine retry line st =
     (let trimmedLine = trim line
      in if trimmedLine = [] then (Inr (), st)
         else
           let actualLine = (if trimmedLine = ''_EMPTY_'' then [] else trimmedLine)
           in if \<not> retry \<or> startsWith actualLine ''exec(''
              then on_ok (sendLine actualLine st)
                     (\<lambda>r st'. case r of None \<Rightarrow> (Inl FailedToSendLine, st')
                                       | Some _ \<Rightarrow> (Inr (), st'))
              else on_ok (retryLoop 0 actualLine st)
                     (\<lambda>success st'. if \<not> success then (Inl FailedAfterRetries, st')
                                     else (Inr (), st')))"

fun executeLines :: "bool \<Rightarrow> string list \<Rightarrow> controller \<Rightarrow> unit result" where
  "executeLines retry [] st = (Inr (), st)"
| "executeLines retry (line # lines) st =
     on_ok (executeLine retry line st) (\<lambda>_ st'. executeLines retry lines st')"

definition executeCodeRaw :: "string \<Rightarrow> bool \<Rightarrow> controller \<Rightarrow> unit result" where
  "executeCodeRaw code retry st =
     (if \<not> connected st then (Inl NotConnected, st)
      else on_ok (interrupt st)
             (\<lambda>_ st1. let normalizedCode = replace_CR code;
                           lines = split LF normalizedCode
                       in executeLines retry lines st1))"

section \<open>File transfer\<close>

definition startMarker :: string where "startMarker = ''===FILE_START===''"
definition endMarker :: string where "endMarker = ''===FILE_END===''"

text \<open>The five lines \<open>downloadCode\<close> sends; the third is the empty line that runs the
  \<open>try\<close> block.\<close>

definition probeTry :: "string \<Rightarrow> string" where
  "probeTry filename =
     ''try: f = open('' @ [sq] @ filename @ [sq] @ '', '' @ [sq] @ ''r'' @ [sq]
       @ ''); f.close(); print('' @ [dq] @ ''FILE_EXISTS'' @ [dq] @ '')''"

definition probeExcept :: string where
  "probeExcept = ''except: print('' @ [dq] @ ''FILE_NOT_FOUND'' @ [dq] @ '')''"

definition readCommand :: "string \<Rightarrow> string" where
  "readCommand filename =
     ''f = open('' @ [sq] @ filename @ [sq] @ '', '' @ [sq] @ ''r'' @ [sq]
       @ ''); content = f.read(); f.close()''"

definition printCommand :: string where
  "printCommand =
     ''print('' @ [dq] @ ''===FILE_START==='' @ [dq] @ '', end='' @ [dq, dq]
       @ ''); print(content, end='' @ [dq, dq] @ ''); print('' @ [dq] @ ''===FILE_END===''
       @ [dq] @ '')''"

text \<open>The end of \<open>downloadCode\<close>, from \<open>result.indexOf(startMarker)\<close>; a method call
  on a null \<open>result\<close> is a type error.\<close>

definition extractContent :: "string option \<Rightarrow> error + string" where
  "extractContent result =
     (case result of
        None \<Rightarrow> Inl TypeError
      | Some res \<Rightarrow>
          (case indexOf res startMarker of
             None \<Rightarrow> Inl FailedToReadContent
           | Some startIndex \<Rightarrow>
               (case indexOf res endMarker of
                  None \<Rightarrow> Inl FailedToReadContent
                | Some endIndex \<Rightarrow>
                    Inr (replace_CRLF
                           (substring res (startIndex + length startMarker) endIndex)))))"

definition downloadCode :: "string \<Rightarrow> controller \<Rightarrow> string result" where
  "downloadCode filename st =
     (if \<not> connected st then (Inl NotConnected, st)
      else
        on_ok (interrupt st) (\<lambda>_ st1.
        on_ok (sendLine (probeTry filename) st1) (\<lambda>_ st2.
        on_ok (sendLine probeExcept st2) (\<lambda>_ st3.
        on_ok (sendLine [] st3) (\<lambda>checkResult st4.
          case checkResult of
            None \<Rightarrow> (Inl TypeError, st4)
          | Some check \<Rightarrow>
              if str_includes check ''FILE_NOT_FOUND'' then (Inl (FileNotFound filename), st4)
              else
                on_ok (sendLine (readCommand filename) st4) (\<lambda>_ st5.
                on_ok (sendLine printCommand st5) (\<lambda>result st6.
                  (extractContent result, st6))))))))"

text \<open>\<open>code.match(/# filename:\s*(\S+)/)\<close> for a \<open>code\<close> that starts with
  \<open>'# filename: '\<close>: the match at index 0 is the leftmost; it skips the white space
  after the colon and captures the run of other characters, and there is no match
  when nothing but white space follows.\<close>

definition filenameMatch :: "string \<Rightarrow> string option" where
  "filenameMatch code =
     (let rest = dropWhile isWhiteSpace (drop (length ''# filename:'') code);
          name = takeWhile (\<lambda>c. \<not> isWhiteSpace c) rest
      in if name = [] then None else Some name)"

text \<open>In \<open>const chunkSize = this.chunkSize // 2;\<close> the two slashes start a comment
  of JavaScript, so the constant is \<open>this.chunkSize\<close> itself; the comment above that
  line says: "This has to be half of this.chunkSize to avoid OSError 28".\<close>

definition uploadChunkSize :: nat where
  "uploadChunkSize = chunkSize"

text \<open>\<open>const chunks = Math.ceil(code.length / chunkSize)\<close>.\<close>

definition uploadChunks :: "string \<Rightarrow> nat" where
  "uploadChunks code = ceil_div (length code) uploadChunkSize"

text \<open>The loop \<open>for (let i = 0; i < chunks; i++)\<close> of \<open>uploadCode\<close>, over the indices
  still to do.\<close>

fun uploadLoop :: "string \<Rightarrow> string \<Rightarrow> nat list \<Rightarrow> controller \<Rightarrow> unit result" where
  "uploadLoop code filename [] st = (Inr (), st)"
| "uploadLoop code filename (i # is) st =
     (let chunk = substring code (i * uploadChunkSize) ((i + 1) * uploadChunkSize);
          append' = (i > 0);
          wrappedCode = wrapCodeHex (Str chunk) (Some filename) append'
      in on_ok (executeCodeRaw wrappedCode True st)
           (\<lambda>_ st'. uploadLoop code filename is st'))"

definition uploadCode :: "string \<Rightarrow> string \<Rightarrow> controller \<Rightarrow> bool result" where
  "uploadCode code filename st =
     (if \<not> connected st then (Inl NotConnected, st)
      else
        let filename' =
              (if startsWith code ''# filename: ''
               then (case filenameMatch code of Some name \<Rightarrow> name | None \<Rightarrow> filename)
               else filename)
        in on_ok (uploadLoop code filename' [0..<uploadChunks code] st)
             (\<lambda>_ st'. (Inr True, st')))"

section \<open>Connection cleanup\<close>

definition stopBackgroundReading :: "controller \<Rightarrow> controller" where
  "stopBackgroundReading st =
     st\<lparr>backgroundReadActive := False, backgroundReadPromise := False,
        calls := calls st @ [StopBackgroundReading]\<rparr>"

text \<open>An awaited call on the transport: \<open>rejects\<close> says which calls fail.\<close>

definition transportCall :: "(call \<Rightarrow> bool) \<Rightarrow> call \<Rightarrow> controller \<Rightarrow> unit result" where
  "transportCall rejects c st =
     (let st' = st\<lparr>calls := calls st @ [c]\<rparr>
      in if rejects c then (Inl (Rejected c), st') else (Inr (), st'))"

text \<open>\<open>disconnect\<close>; its \<open>catch\<close> block throws the error again.\<close>

definition disconnect :: "(call \<Rightarrow> bool) \<Rightarrow> controller \<Rightarrow> unit result" where
  "disconnect rejects st =
     (let st1 = stopBackgroundReading st
      in on_ok (if reader st1
                then on_ok (transportCall rejects ReaderCancel st1)
                       (\<lambda>_ s. (Inr (), s\<lparr>calls := calls s @ [ReaderReleaseLock], reader := False\<rparr>))
                else (Inr (), st1)) (\<lambda>_ st2.
         on_ok (if writer st2
                then on_ok (transportCall rejects WriterClose st2)
                       (\<lambda>_ s. (Inr (), s\<lparr>writer := False\<rparr>))
                else (Inr (), st2)) (\<lambda>_ st3.
         on_ok (if port st3
                then on_ok (transportCall rejects PortClose st3)
                       (\<lambda>_ s. (Inr (), s\<lparr>port := False\<rparr>))
                else (Inr (), st3)) (\<lambda>_ st4.
           (Inr (), st4\<lparr>connected := False, serialBuffer := [], lastBufferPosition := 0,
                        bufferConsumers := [],
                        calls := calls st4 @ [ClearBuffer, ClearConsumers, UpdateUIButtonStates]\<rparr>)))))"

section \<open>Example states\<close>

text \<open>A controller after a successful \<open>connect()\<close>, and one whose receive buffer holds
  10000 entries, all of them read by the one registered consumer.\<close>

definition connected_controller :: controller where
  "connected_controller =
     new_controller\<lparr>port := True, reader := True, writer := True, connected := True,
                    backgroundReadActive := True, backgroundReadPromise := True\<rparr>"

definition full_buffer :: controller where
  "full_buffer =
     connected_controller
       \<lparr>serialBuffer := replicate 10000 \<lparr>data = ''x'', timestamp = 0\<rparr>,
        bufferConsumers := [\<lparr>consumer_id = ''readUntilPrompt'', position = 10000\<rparr>]\<rparr>"

section \<open>Order of steps\<close>

text \<open>The place of each step in the cleanup of a connection, and \<open>before a b xs\<close>:
  \<open>b\<close> occurs in \<open>xs\<close> at or after the first \<open>a\<close>.\<close>

fun cleanup_rank :: "call \<Rightarrow> nat" where
  "cleanup_rank StopBackgroundReading = 0"
| "cleanup_rank ReaderCancel = 1"
| "cleanup_rank ReaderReleaseLock = 2"
| "cleanup_rank WriterClose = 3"
| "cleanup_rank PortClose = 4"
| "cleanup_rank ClearBuffer = 5"
| "cleanup_rank ClearConsumers = 6"
| "cleanup_rank UpdateUIButtonStates = 7"
| "cleanup_rank (WriterWrite _) = 8"

definition before :: "'a \<Rightarrow> 'a \<Rightarrow> 'a list \<Rightarrow> bool" where
  "before a b xs = (b \<in> set (dropWhile (\<lambda>x. x \<noteq> a) xs))"

section \<open>Counting timeouts\<close>

text \<open>The number of polls in a run of polls that timed out.\<close>

definition emptyPolls :: "string list \<Rightarrow> nat" where
  "emptyPolls ds = length (filter (\<lambda>d. d = []) ds)"

section \<open>A device that answers\<close>

text \<open>What a device at its prompt sends back, one poll per command, while
  \<open>downloadCode\<close> reads a file that exists and holds \<open>content\<close>: the prompt after the
  interrupts, then for each line its echo, the output and the next prompt. In
  \<open>silent_probe\<close> the device stops answering once the \<open>try\<close> block is typed.\<close>

definition device_replies :: "string \<Rightarrow> string \<Rightarrow> string list" where
  "device_replies filename content =
     [CRLF @ ''>>> '',
      probeTry filename @ CRLF @ ''... '',
      probeExcept @ CRLF @ ''... '',
      CRLF @ ''FILE_EXISTS'' @ CRLF @ ''>>> '',
      readCommand filename @ CRLF @ ''>>> '',
      printCommand @ CRLF @ startMarker @ content @ endMarker @ CRLF @ ''>>> '']"

definition silent_probe :: controller where
  "silent_probe =
     connected_controller\<lparr>polls := take 3 (device_replies ''main.py'' []) @ [[], []]\<rparr>"

section \<open>Lines, sends and responses\<close>

text \<open>The line the raw executor sends for a line of the payload that it does not
  skip; the lines of a payload, where a carriage return and a line feed each end a
  line (a CR LF pair leaves an empty line between them); and the lines to send for a
  whole payload: its lines without the blank ones, the sentinel replaced by the empty
  line.\<close>

definition actualLine :: "string \<Rightarrow> string" where
  "actualLine line = (if trim line = ''_EMPTY_'' then [] else trim line)"

fun splitLines :: "string \<Rightarrow> string list" where
  "splitLines [] = [[]]"
| "splitLines (c # s) =
     (if c = CHR 0x0D \<or> c = CHR 0x0A then [] # splitLines s
      else (case splitLines s of [] \<Rightarrow> [[c]] | l # ls \<Rightarrow> (c # l) # ls))"

definition linesToSend :: "string \<Rightarrow> string list" where
  "linesToSend code = map actualLine (filter (\<lambda>l. trim l \<noteq> []) (splitLines code))"

text \<open>The controller after \<open>k\<close> sends of a line, the response to the send that follows
  them, and whether the retry loop accepts a response.\<close>

fun sendTimes :: "nat \<Rightarrow> string \<Rightarrow> controller \<Rightarrow> controller" where
  "sendTimes 0 line st = st"
| "sendTimes (Suc k) line st = snd (sendLine line (sendTimes k line st))"

definition response :: "nat \<Rightarrow> string \<Rightarrow> controller \<Rightarrow> string option" where
  "response k line st =
     (case fst (sendLine line (sendTimes k line st)) of Inl _ \<Rightarrow> None | Inr r \<Rightarrow> r)"

definition accepted :: "string option \<Rightarrow> bool" where
  "accepted r = (case r of None \<Rightarrow> False | Some text \<Rightarrow> \<not> str_includes text ''Traceback'')"

text \<open>The writes of lines, each repeated as often as \<open>ks\<close> says.\<close>

definition writesOf :: "string list \<Rightarrow> nat list \<Rightarrow> call list" where
  "writesOf ls ks = concat (map (\<lambda>(l, k). replicate k (WriterWrite (l @ CRLF))) (zip ls ks))"

text \<open>Two devices at their prompt: one answers the first send of \<open>a = 1\<close> with a
  traceback and every later send with the bare prompt, the other answers the first
  three sends with a traceback.\<close>

definition traceback_reply :: string where
  "traceback_reply =
     ''a = 1'' @ CRLF @ ''Traceback (most recent call last):'' @ CRLF @ ''>>> ''"

definition flaky_device :: controller where
  "flaky_device =
     connected_controller
       \<lparr>polls := [CRLF @ ''>>> '', traceback_reply, ''a = 1'' @ CRLF @ ''>>> '',
                  ''b = 2'' @ CRLF @ ''>>> '']\<rparr>"

definition stubborn_device :: controller where
  "stubborn_device =
     connected_controller
       \<lparr>polls := [CRLF @ ''>>> '', traceback_reply, traceback_reply, traceback_reply,
                  ''b = 2'' @ CRLF @ ''>>> '']\<rparr>"

text \<open>A device at its prompt that answers each of the next \<open>n\<close> reads with a new
  prompt.\<close>

definition ready_device :: "nat \<Rightarrow> controller" where
  "ready_device n = connected_controller\<lparr>polls := replicate n (CRLF @ ''>>> '')\<rparr>"

section \<open>Pieces of a text\<close>

text \<open>A list cut into consecutive pieces of \<open>n\<close> elements, the last one shorter when
  the length is not a multiple of \<open>n\<close>.\<close>

function slices :: "nat \<Rightarrow> 'a list \<Rightarrow> 'a list list" where
  "slices n xs =
     (if xs = [] \<or> n = 0 then [] else take n xs # slices n (drop n xs))"
  by pat_completeness auto
termination
  by (relation "measure (\<lambda>(n, xs). length xs)") auto

text \<open>The number a text of decimal digits stands for, the value of a hex digit, and
  the bytes a hex text stands for, two digits for each byte.\<close>

definition decimalValue :: "string \<Rightarrow> nat" where
  "decimalValue s = foldl (\<lambda>a c. 10 * a + (of_char c - 48)) 0 s"

definition hexValue :: "char \<Rightarrow> nat" where
  "hexValue c = (if of_char c < (58 :: nat) then of_char c - 48 else of_char c - 87)"

definition bytesOfHex :: "string \<Rightarrow> 8 word list" where
  "bytesOfHex h = map (\<lambda>p. of_nat (16 * hexValue (hd p) + hexValue (last p))) (slices 2 h)"

section \<open>Buffer retention\<close>

text \<open>The cursors stay within the buffer, and the buffer within 10000 entries.\<close>

lemma storeChunk_keeps_cursors_in_range:
  assumes "\<forall>c\<in>set (bufferConsumers st). position c \<le> length (serialBuffer st)"
    and "length (serialBuffer st) \<le> 10000"
  shows "\<forall>c\<in>set (bufferConsumers (storeChunk chunk now st)).
           position c \<le> length (serialBuffer (storeChunk chunk now st))"
    and "length (serialBuffer (storeChunk chunk now st)) \<le> 10000"
  using assms
  by (auto simp: storeChunk_def Let_def slice_last_def adjustPosition_def)

text \<open>
  C2. When the background reader appends the chunk that takes the buffer past 10000
  entries, the buffer is cut to its last 5000 entries, so 5001 entries are removed,
  but every cursor above 5000 is lowered by 5000 and not by the 5001 removed. At the
  state \<open>full_buffer\<close> the consumer has read all 10000 entries; after the chunk
  \<open>y\<close> arrives its cursor is 5000, the length of the buffer, where the claim puts it
  at 4999: \<open>readNew\<close> then returns nothing and the consumer never sees \<open>y\<close>.
\<close>

theorem retention_moves_cursor_by_5000:
  "length (serialBuffer full_buffer) = 10000 \<and>
   map position (bufferConsumers full_buffer) = [10000] \<and>
   (let st' = backgroundReadLoop [Value ''y'' 1] full_buffer
    in length (serialBuffer st') = 5000 \<and>
       length (serialBuffer full_buffer) + 1 - length (serialBuffer st') = 5001 \<and>
       map position (bufferConsumers st') = [5000] \<and>
       last (serialBuffer st') = \<lparr>data = ''y'', timestamp = 1\<rparr> \<and>
       fst (readNew 0 st') = [])"
  by (simp add: full_buffer_def connected_controller_def new_controller_def storeChunk_def
        slice_last_def adjustPosition_def readNew_def Let_def)

section \<open>Upload chunking\<close>

text \<open>
  C1. \<open>uploadCode\<close> cuts the payload into pieces of \<open>this.chunkSize\<close> = 1024
  characters, not of half that size: a payload of 1024 characters is one chunk, sent
  whole by a single run of the raw executor with append = false, where
  \<open>\<lceil>n / (c/2)\<rceil>\<close> asks for two chunks of 512.
\<close>

theorem upload_1024_is_one_chunk:
  "uploadChunkSize = 1024 \<and>
   uploadChunks (replicate 1024 (CHR ''a'')) = 1 \<and>
   ceil_div 1024 (chunkSize div 2) = 2 \<and>
   uploadCode (replicate 1024 (CHR ''a'')) ''main.py'' connected_controller =
     on_ok (executeCodeRaw
              (wrapCodeHex (Str (replicate 1024 (CHR ''a''))) (Some ''main.py'') False)
              True connected_controller)
       (\<lambda>_ st'. (Inr True, st'))"
proof -
  have size: "uploadChunkSize = 1024"
    by (simp add: uploadChunkSize_def chunkSize_def)
  have n: "uploadChunks (replicate 1024 (CHR ''a'')) = 1"
    by (simp add: uploadChunks_def size ceil_div_def)
  have claimed: "ceil_div 1024 (chunkSize div 2) = 2"
    by (simp add: chunkSize_def ceil_div_def)
  have no_directive: "\<not> startsWith (replicate 1024 (CHR ''a'')) ''# filename: ''"
    by (simp add: startsWith_def)
  have whole: "substring (replicate 1024 (CHR ''a'')) 0 1024 = replicate 1024 (CHR ''a'')"
    by (simp add: substring_def)
  have conn: "connected connected_controller"
    by (simp add: connected_controller_def new_controller_def)
  have "uploadCode (replicate 1024 (CHR ''a'')) ''main.py'' connected_controller =
     on_ok (executeCodeRaw
              (wrapCodeHex (Str (replicate 1024 (CHR ''a''))) (Some ''main.py'') False)
              True connected_controller)
       (\<lambda>_ st'. (Inr True, st'))"
    unfolding uploadCode_def n
    by (simp add: conn no_directive size whole on_ok_def split: prod.splits sum.splits)
  with size n claimed show ?thesis by simp
qed

section \<open>Cleanup order of disconnect\<close>

text \<open>
  C4, as stated, fails: on a connected controller \<open>disconnect\<close> releases read access
  (\<open>reader.cancel()\<close>, \<open>reader.releaseLock()\<close>) before it closes the writer, not
  after.
\<close>

theorem disconnect_releases_reader_first:
  "calls (snd (disconnect (\<lambda>_. False) connected_controller)) =
     [StopBackgroundReading, ReaderCancel, ReaderReleaseLock, WriterClose, PortClose,
      ClearBuffer, ClearConsumers, UpdateUIButtonStates] \<and>
   before ReaderReleaseLock WriterClose
     (calls (snd (disconnect (\<lambda>_. False) connected_controller))) \<and>
   \<not> before WriterClose ReaderReleaseLock
     (calls (snd (disconnect (\<lambda>_. False) connected_controller)))"
  by (simp add: disconnect_def stopBackgroundReading_def transportCall_def on_ok_def
        connected_controller_def new_controller_def before_def Let_def)

text \<open>
  C4, amended. \<open>disconnect\<close> performs its cleanup in this order: it stops the
  background reader, then releases read access, then closes the writer, then closes
  the port, and last clears the receive buffer and the consumers. Whatever call
  rejects, the steps done so far are in that order and the first is the stop of the
  background reader; when no call rejects, the steps are exactly those of the fields
  that were set, and the buffer and the registry end up empty.
\<close>

theorem disconnect_order:
  "sorted_wrt (\<lambda>a b. cleanup_rank a < cleanup_rank b)
     (drop (length (calls st)) (calls (snd (disconnect rejects st)))) \<and>
   take (Suc (length (calls st))) (calls (snd (disconnect rejects st))) =
     calls st @ [StopBackgroundReading] \<and>
   disconnect (\<lambda>_. False) st =
     (Inr (),
      st\<lparr>backgroundReadActive := False, backgroundReadPromise := False,
         reader := False, writer := False, port := False, connected := False,
         serialBuffer := [], lastBufferPosition := 0, bufferConsumers := [],
         calls := calls st @ [StopBackgroundReading]
           @ (if reader st then [ReaderCancel, ReaderReleaseLock] else [])
           @ (if writer st then [WriterClose] else [])
           @ (if port st then [PortClose] else [])
           @ [ClearBuffer, ClearConsumers, UpdateUIButtonStates]\<rparr>)"
  by (simp add: disconnect_def stopBackgroundReading_def transportCall_def on_ok_def Let_def)

section \<open>The prompt scanner and its timeouts\<close>

text \<open>The loops are unfolded by hand, one turn at a time.\<close>

declare readUntilPrompt_loop.simps [simp del]
declare retryLoop.simps [simp del]
declare decimal.simps [simp del]

lemma accumulate_not_null: "accumulate sc d \<noteq> ReturnNull"
  by (auto simp: accumulate_def Let_def split: if_splits option.splits)

lemma accumulate_Next: "accumulate sc d = Next sc' \<Longrightarrow> retryCount sc' = retryCount sc"
  by (auto simp: accumulate_def Let_def split: if_splits option.splits)

lemma scanBody_empty:
  "scanBody sc [] st =
     (if 1 \<le> retryCount sc then (ReturnNull, st)
      else (Next (sc\<lparr>retryCount := Suc (retryCount sc)\<rparr>), st))"
  by (simp add: scanBody_def Let_def)

lemma scanBody_data:
  assumes "d \<noteq> []" "scanBody sc d st = (f, st2)"
  shows "polls st2 = polls st \<and> f \<noteq> ReturnNull \<and>
         (\<forall>sc'. f = Next sc' \<longrightarrow> retryCount sc' = retryCount sc)"
  using assms
  by (auto simp: scanBody_def Let_def accumulate_not_null dest: accumulate_Next
           split: if_splits option.splits)

lemma loop_step:
  assumes "retryCount sc < 3" "polls st = d # ps"
  shows "readUntilPrompt_loop sc st =
     (case scanBody sc d (st\<lparr>polls := ps\<rparr>) of
        (ReturnNull, st2) \<Rightarrow> (None, st2)
      | (Break sc', st2) \<Rightarrow> (Some (output' sc'), st2)
      | (Next sc', st2) \<Rightarrow> readUntilPrompt_loop sc' st2)"
  using assms by (subst readUntilPrompt_loop.simps) (simp add: readWithTimeout_def)

lemma loop_second_empty:
  assumes "polls st = pre @ [] # rest" "retryCount sc + emptyPolls pre = 1"
  shows "(fst (readUntilPrompt_loop sc st) = None \<and> polls (snd (readUntilPrompt_loop sc st)) = rest) \<or>
         (fst (readUntilPrompt_loop sc st) \<noteq> None \<and>
          length rest < length (polls (snd (readUntilPrompt_loop sc st))))"
  using assms
proof (induction pre arbitrary: sc st)
  case Nil
  then have rc: "retryCount sc = 1" by (simp add: emptyPolls_def)
  with Nil show ?case
    by (simp add: loop_step[where d="[]" and ps=rest] scanBody_empty)
next
  case (Cons d pre)
  have lt: "retryCount sc < 3" using Cons.prems by simp
  have ps: "polls st = d # (pre @ [] # rest)" using Cons.prems by simp
  note step = loop_step[OF lt ps]
  show ?case
  proof (cases "d = []")
    case True
    with Cons.prems have rc: "retryCount sc = 0" and e: "emptyPolls pre = 0"
      by (simp_all add: emptyPolls_def)
    have "readUntilPrompt_loop sc st =
            readUntilPrompt_loop (sc\<lparr>retryCount := Suc (retryCount sc)\<rparr>) (st\<lparr>polls := pre @ [] # rest\<rparr>)"
      using step True rc by (simp add: scanBody_empty)
    moreover have "retryCount (sc\<lparr>retryCount := Suc (retryCount sc)\<rparr>) + emptyPolls pre = 1"
      using rc e by simp
    ultimately show ?thesis
      using Cons.IH[of "st\<lparr>polls := pre @ [] # rest\<rparr>" "sc\<lparr>retryCount := Suc (retryCount sc)\<rparr>"]
      by simp
  next
    case False
    obtain f st2 where sb: "scanBody sc d (st\<lparr>polls := pre @ [] # rest\<rparr>) = (f, st2)"
      by (cases "scanBody sc d (st\<lparr>polls := pre @ [] # rest\<rparr>)")
    from scanBody_data[OF False sb]
    have p2: "polls st2 = pre @ [] # rest" and nn: "f \<noteq> ReturnNull"
      and rcs: "\<And>sc'. f = Next sc' \<Longrightarrow> retryCount sc' = retryCount sc"
      by auto
    have e: "emptyPolls (d # pre) = emptyPolls pre" using False by (simp add: emptyPolls_def)
    show ?thesis
    proof (cases f)
      case (Next sc')
      then have "readUntilPrompt_loop sc st = readUntilPrompt_loop sc' st2"
        using step sb by simp
      moreover have "retryCount sc' + emptyPolls pre = 1"
        using rcs[OF Next] Cons.prems(2) e by simp
      ultimately show ?thesis using Cons.IH[OF p2] by simp
    next
      case (Break sc')
      then have "readUntilPrompt_loop sc st = (Some (output' sc'), st2)"
        using step sb by simp
      then show ?thesis using p2 by simp
    next
      case ReturnNull
      with nn show ?thesis by simp
    qed
  qed
qed


lemma scanBody_polls: "polls (snd (scanBody sc d st)) = polls st"
  by (auto simp: scanBody_def Let_def split: if_splits option.splits)

lemma readWithTimeout_polls: "length (polls (snd (readWithTimeout st))) \<le> length (polls st)"
  by (simp add: readWithTimeout_def split: list.splits)

lemma loop_polls_length:
  "length (polls (snd (readUntilPrompt_loop sc st))) \<le> length (polls st)"
proof (induction sc st rule: readUntilPrompt_loop.induct)
  case (1 sc st)
  show ?case
  proof (cases "retryCount sc < 3")
    case False
    then show ?thesis by (subst readUntilPrompt_loop.simps) simp
  next
    case True
    obtain f st2 where sb: "scanBody sc (fst (readWithTimeout st)) (snd (readWithTimeout st)) = (f, st2)"
      by (cases "scanBody sc (fst (readWithTimeout st)) (snd (readWithTimeout st))")
    have p2: "length (polls st2) \<le> length (polls st)"
      using scanBody_polls[of sc "fst (readWithTimeout st)" "snd (readWithTimeout st)"] sb
            readWithTimeout_polls[of st] by simp
    show ?thesis
    proof (cases f)
      case (Next sc')
      with "1.IH"[OF True sb[symmetric] Next] p2 True sb show ?thesis
        by (subst readUntilPrompt_loop.simps) simp
    next
      case (Break sc')
      with p2 True sb show ?thesis by (subst readUntilPrompt_loop.simps) simp
    next
      case ReturnNull
      with p2 True sb show ?thesis by (subst readUntilPrompt_loop.simps) simp
    qed
  qed
qed

lemma loop_null_consumed:
  assumes "polls st = ps" "retryCount sc \<le> 1"
    "fst (readUntilPrompt_loop sc st) = None" "polls (snd (readUntilPrompt_loop sc st)) \<noteq> []"
  shows "\<exists>consumed. ps = consumed @ polls (snd (readUntilPrompt_loop sc st)) \<and>
           emptyPolls consumed + retryCount sc = 2 \<and> consumed \<noteq> [] \<and> last consumed = []"
  using assms
proof (induction ps arbitrary: sc st)
  case Nil
  with loop_polls_length[of sc st] show ?case by simp
next
  case (Cons d ps)
  have lt: "retryCount sc < 3" using Cons.prems by simp
  note step = loop_step[OF lt Cons.prems(1)]
  obtain f st2 where sb: "scanBody sc d (st\<lparr>polls := ps\<rparr>) = (f, st2)"
    by (cases "scanBody sc d (st\<lparr>polls := ps\<rparr>)")
  have p2: "polls st2 = ps"
    using scanBody_polls[of sc d "st\<lparr>polls := ps\<rparr>"] sb by simp
  show ?case
  proof (cases f)
    case (Next sc')
    then have eq: "readUntilPrompt_loop sc st = readUntilPrompt_loop sc' st2"
      using step sb by simp
    have rc': "retryCount sc' = (if d = [] then Suc (retryCount sc) else retryCount sc)"
    proof (cases "d = []")
      case True
      with sb Next show ?thesis by (auto simp: scanBody_empty split: if_splits)
    next
      case False
      with scanBody_data[OF False sb] Next show ?thesis by simp
    qed
    have le: "retryCount sc' \<le> 1"
    proof (cases "d = []")
      case True
      with sb Next Cons.prems(2) show ?thesis by (auto simp: scanBody_empty split: if_splits)
    next
      case False
      with rc' Cons.prems(2) show ?thesis by simp
    qed
    from Cons.IH[OF p2 le] Cons.prems(3,4) eq
    obtain consumed where c: "ps = consumed @ polls (snd (readUntilPrompt_loop sc' st2))"
      "emptyPolls consumed + retryCount sc' = 2" "consumed \<noteq> []" "last consumed = []"
      by auto
    have "d # ps = (d # consumed) @ polls (snd (readUntilPrompt_loop sc st))"
      using c(1) eq by simp
    moreover have "emptyPolls (d # consumed) + retryCount sc = 2"
      using c(2) rc' by (cases "d = []") (simp_all add: emptyPolls_def)
    moreover have "last (d # consumed) = []" using c(3,4) by simp
    ultimately show ?thesis by blast
  next
    case (Break sc')
    with step sb Cons.prems(3) show ?thesis by simp
  next
    case ReturnNull
    then have eq: "readUntilPrompt_loop sc st = (None, st2)" using step sb by simp
    have d: "d = []" using scanBody_data[OF _ sb] ReturnNull by auto
    have rc: "retryCount sc = 1"
      using sb ReturnNull d Cons.prems(2) by (auto simp: scanBody_empty split: if_splits)
    have "d # ps = [d] @ polls (snd (readUntilPrompt_loop sc st))" using eq p2 by simp
    moreover have "emptyPolls [d] + retryCount sc = 2" using d rc by (simp add: emptyPolls_def)
    ultimately show ?thesis using d by (metis last.simps not_Cons_self2)
  qed
qed

lemma readUntilPrompt_connected:
  assumes "connected st"
  shows "fst (readUntilPrompt st) =
           Inr (fst (readUntilPrompt_loop \<lparr>receiveMode = 0, pending = [], retryCount = 0, output' = []\<rparr>
                       (createBufferConsumer ''readUntilPrompt'' st)))"
    and "polls (snd (readUntilPrompt st)) =
           polls (snd (readUntilPrompt_loop \<lparr>receiveMode = 0, pending = [], retryCount = 0, output' = []\<rparr>
                       (createBufferConsumer ''readUntilPrompt'' st)))"
  using assms by (simp_all add: readUntilPrompt_def Let_def removeBufferConsumer_def)

text \<open>
  C3, as stated, fails: two timeouts with polls of data between them make
  \<open>readUntilPrompt\<close> return null. Here the polls are a timeout, two polls of data, a
  timeout and a complete response: the call returns null at the fourth poll and
  leaves the response unread, although no two timeouts were consecutive.
\<close>

theorem readUntilPrompt_counts_separated_timeouts:
  "fst (readUntilPrompt
          (connected_controller\<lparr>polls := [[], ''ab'', ''c'', [], ''x'' @ CRLF @ ''>>>'']\<rparr>)) =
     Inr None \<and>
   polls (snd (readUntilPrompt
          (connected_controller\<lparr>polls := [[], ''ab'', ''c'', [], ''x'' @ CRLF @ ''>>>'']\<rparr>))) =
     [''x'' @ CRLF @ ''>>>'']"
  by code_simp

text \<open>
  C3, amended. \<open>readUntilPrompt\<close> returns null exactly at the second poll of the call
  that times out, whether or not the two timeouts are consecutive: the counter is
  never reset by a poll that returns data. For a connected controller whose coming
  polls are \<open>pre\<close> with one timeout in it, then a timeout, then \<open>rest\<close>: either the
  call returns null on that second timeout, leaving \<open>rest\<close>, or it had returned a
  response before reaching it. And a call that returns null before the script of
  polls is used up has read exactly two timeouts, the second one last. Null is not
  the empty response, which a bare prompt gives.
\<close>

theorem readUntilPrompt_null_at_second_empty_poll:
  assumes "connected st" "polls st = pre @ [] # rest" "emptyPolls pre = 1"
  shows "((fst (readUntilPrompt st) = Inr None \<and> polls (snd (readUntilPrompt st)) = rest) \<or>
          (fst (readUntilPrompt st) \<noteq> Inr None \<and>
           length rest < length (polls (snd (readUntilPrompt st))))) \<and>
         (fst (readUntilPrompt st) = Inr None \<and> polls (snd (readUntilPrompt st)) \<noteq> [] \<longrightarrow>
            (\<exists>consumed. polls st = consumed @ polls (snd (readUntilPrompt st)) \<and>
               emptyPolls consumed = 2 \<and> last consumed = [])) \<and>
         fst (readUntilPrompt (connected_controller\<lparr>polls := [''x'' @ CRLF @ ''>>>'']\<rparr>)) =
           Inr (Some [])"
proof -
  let ?sc = "\<lparr>receiveMode = 0, pending = [], retryCount = 0, output' = []\<rparr>"
  let ?st = "createBufferConsumer ''readUntilPrompt'' st"
  have p: "polls ?st = pre @ [] # rest" using assms(2) by (simp add: createBufferConsumer_def)
  have a: "retryCount ?sc + emptyPolls pre = 1" using assms(3) by simp
  note A = loop_second_empty[OF p a]
  have B: "fst (readUntilPrompt_loop ?sc ?st) = None \<Longrightarrow>
           polls (snd (readUntilPrompt_loop ?sc ?st)) \<noteq> [] \<Longrightarrow>
           \<exists>consumed. polls st = consumed @ polls (snd (readUntilPrompt_loop ?sc ?st)) \<and>
               emptyPolls consumed = 2 \<and> last consumed = []"
    using loop_null_consumed[of ?st "polls st" ?sc] by (auto simp: createBufferConsumer_def)
  have C: "fst (readUntilPrompt (connected_controller\<lparr>polls := [''x'' @ CRLF @ ''>>>'']\<rparr>)) =
           Inr (Some [])"
    by code_simp
  have AB: "((fst (readUntilPrompt st) = Inr None \<and> polls (snd (readUntilPrompt st)) = rest) \<or>
          (fst (readUntilPrompt st) \<noteq> Inr None \<and>
           length rest < length (polls (snd (readUntilPrompt st))))) \<and>
         (fst (readUntilPrompt st) = Inr None \<and> polls (snd (readUntilPrompt st)) \<noteq> [] \<longrightarrow>
            (\<exists>consumed. polls st = consumed @ polls (snd (readUntilPrompt st)) \<and>
               emptyPolls consumed = 2 \<and> last consumed = []))"
    using A B unfolding readUntilPrompt_connected[OF assms(1)] by auto
  from AB C show ?thesis by blast
qed

theorem readUntilPrompt_null_at_second_empty_poll_witness:
  "connected (connected_controller\<lparr>polls := [[], ''abc'', [], ''x'' @ CRLF @ ''>>>'']\<rparr>) \<and>
   emptyPolls [[], ''abc''] = 1 \<and>
   fst (readUntilPrompt (connected_controller\<lparr>polls := [[], ''abc'', [], ''x'' @ CRLF @ ''>>>'']\<rparr>)) = Inr None \<and>
   polls (snd (readUntilPrompt (connected_controller\<lparr>polls := [[], ''abc'', [], ''x'' @ CRLF @ ''>>>'']\<rparr>))) = [''x'' @ CRLF @ ''>>>'']"
proof -
  let ?st = "connected_controller\<lparr>polls := [[], ''abc'', [], ''x'' @ CRLF @ ''>>>'']\<rparr>"
  have c: "connected ?st" by (simp add: connected_controller_def new_controller_def)
  have p: "polls ?st = [[], ''abc''] @ [] # [''x'' @ CRLF @ ''>>>'']" by simp
  have e: "emptyPolls [[], ''abc''] = 1" by (simp add: emptyPolls_def)
  have n: "\<not> length [''x'' @ CRLF @ ''>>>''] < length (polls (snd (readUntilPrompt ?st)))"
    by code_simp
  from readUntilPrompt_null_at_second_empty_poll[OF c p e] n c e show ?thesis by blast
qed

section \<open>What the scanner leaves unchanged\<close>

text \<open>A call of \<open>readUntilPrompt\<close> changes only the script of polls and the echo it
  recorded; \<open>sendLine\<close> on a connected controller with a writer adds one write and
  does not throw.\<close>

lemma scanBody_frame:
  "\<exists>e. snd (scanBody sc d st) = st\<lparr>lastLineEcho := e\<rparr>"
proof -
  have "snd (scanBody sc d st) = st\<lparr>lastLineEcho := lastLineEcho st\<rparr> \<or>
        snd (scanBody sc d st) = st\<lparr>lastLineEcho := substring (if pending sc \<noteq> [] then pending sc @ d else d) 0 (the (indexOf (if pending sc \<noteq> [] then pending sc @ d else d) CRLF))\<rparr>"
    by (auto simp: scanBody_def Let_def split: if_splits option.splits)
  then show ?thesis by blast
qed

lemma readWithTimeout_frame: "\<exists>ps. snd (readWithTimeout st) = st\<lparr>polls := ps\<rparr>"
proof (cases "polls st")
  case Nil
  then have "snd (readWithTimeout st) = st\<lparr>polls := polls st\<rparr>"
    by (simp add: readWithTimeout_def)
  then show ?thesis by blast
next
  case (Cons p ps)
  then have "snd (readWithTimeout st) = st\<lparr>polls := ps\<rparr>"
    by (simp add: readWithTimeout_def)
  then show ?thesis by blast
qed

lemma loop_frame:
  "\<exists>ps e. snd (readUntilPrompt_loop sc st) = st\<lparr>polls := ps, lastLineEcho := e\<rparr>"
proof (induction sc st rule: readUntilPrompt_loop.induct)
  case (1 sc st)
  show ?case
  proof (cases "retryCount sc < 3")
    case False
    then have "snd (readUntilPrompt_loop sc st) = st\<lparr>polls := polls st, lastLineEcho := lastLineEcho st\<rparr>"
      by (subst readUntilPrompt_loop.simps) simp
    then show ?thesis by blast
  next
    case True
    obtain f st2 where sb: "scanBody sc (fst (readWithTimeout st)) (snd (readWithTimeout st)) = (f, st2)"
      by (cases "scanBody sc (fst (readWithTimeout st)) (snd (readWithTimeout st))")
    obtain ps where rw: "snd (readWithTimeout st) = st\<lparr>polls := ps\<rparr>"
      using readWithTimeout_frame by blast
    obtain e where "st2 = (snd (readWithTimeout st))\<lparr>lastLineEcho := e\<rparr>"
      using scanBody_frame[of sc "fst (readWithTimeout st)" "snd (readWithTimeout st)"] sb by auto
    then have st2: "st2 = st\<lparr>polls := ps, lastLineEcho := e\<rparr>" using rw by simp
    show ?thesis
    proof (cases f)
      case (Next sc')
      from "1.IH"[OF True sb[symmetric] Next]
      obtain ps' e' where "snd (readUntilPrompt_loop sc' st2) = st2\<lparr>polls := ps', lastLineEcho := e'\<rparr>"
        by blast
      then have "snd (readUntilPrompt_loop sc' st2) = st\<lparr>polls := ps', lastLineEcho := e'\<rparr>"
        using st2 by simp
      moreover have "readUntilPrompt_loop sc st = readUntilPrompt_loop sc' st2"
        using True sb Next by (subst readUntilPrompt_loop.simps) simp
      ultimately show ?thesis by auto
    next
      case (Break sc')
      then have "snd (readUntilPrompt_loop sc st) = st2"
        using True sb by (subst readUntilPrompt_loop.simps) simp
      with st2 show ?thesis by blast
    next
      case ReturnNull
      then have "snd (readUntilPrompt_loop sc st) = st2"
        using True sb by (subst readUntilPrompt_loop.simps) simp
      with st2 show ?thesis by blast
    qed
  qed
qed

lemma readUntilPrompt_frame:
  "\<exists>ps e. snd (readUntilPrompt st) = st\<lparr>polls := ps, lastLineEcho := e\<rparr>"
proof (cases "connected st")
  case False
  then have "snd (readUntilPrompt st) = st\<lparr>polls := polls st, lastLineEcho := lastLineEcho st\<rparr>"
    by (simp add: readUntilPrompt_def)
  then show ?thesis by blast
next
  case True
  let ?st0 = "createBufferConsumer ''readUntilPrompt'' st"
  let ?sc = "\<lparr>receiveMode = 0, pending = [], retryCount = 0, output' = []\<rparr>"
  obtain ps e where l: "snd (readUntilPrompt_loop ?sc ?st0) = ?st0\<lparr>polls := ps, lastLineEcho := e\<rparr>"
    using loop_frame by blast
  have "snd (readUntilPrompt st) = st\<lparr>polls := ps, lastLineEcho := e\<rparr>"
    using True by (simp add: readUntilPrompt_def Let_def l)
       (simp add: createBufferConsumer_def removeBufferConsumer_def)
  then show ?thesis by blast
qed

lemma readUntilPrompt_returns:
  "connected st \<Longrightarrow> \<exists>r. fst (readUntilPrompt st) = Inr r"
  by (simp add: readUntilPrompt_def Let_def)

lemma sendLine_frame:
  assumes "connected st" "writer st"
  shows "\<exists>r ps e. sendLine line st =
           (Inr r, st\<lparr>calls := calls st @ [WriterWrite (line @ CRLF)], polls := ps, lastLineEcho := e\<rparr>)"
proof -
  let ?st1 = "st\<lparr>calls := calls st @ [WriterWrite (line @ CRLF)]\<rparr>"
  have c: "connected ?st1" using assms by simp
  obtain r where r: "fst (readUntilPrompt ?st1) = Inr r"
    using readUntilPrompt_returns[OF c] by blast
  obtain ps e where f: "snd (readUntilPrompt ?st1) = ?st1\<lparr>polls := ps, lastLineEcho := e\<rparr>"
    using readUntilPrompt_frame by blast
  have "sendLine line st = (Inr r, ?st1\<lparr>polls := ps, lastLineEcho := e\<rparr>)"
    using assms r f by (simp add: sendLine_def prod_eq_iff)
  then show ?thesis by auto
qed

section \<open>Download\<close>

text \<open>On a device that answers, the content comes back with its line ends
  normalised.\<close>

lemma downloadCode_example:
  "fst (downloadCode ''main.py''
          (connected_controller
             \<lparr>polls := device_replies ''main.py'' (''a = 1'' @ CRLF @ ''b = 2'')\<rparr>)) =
     Inr (''a = 1'' @ [LF] @ ''b = 2'')"
  by code_simp

text \<open>When the first end marker starts at or after the end of the first start marker,
  what is returned is the text between them.\<close>

lemma indexOf_found:
  "indexOf s p = Some i \<Longrightarrow> take (length p) (drop i s) = p \<and> i + length p \<le> length s"
proof (induction s arbitrary: i)
  case Nil
  then show ?case by (simp split: if_splits)
next
  case (Cons c s)
  show ?case
  proof (cases "startsWith (c # s) p")
    case True
    then have "i = 0" using Cons.prems by simp
    moreover have "length p \<le> length (c # s)"
    proof -
      have "length (take (length p) (c # s)) = length p"
        using True by (simp only: startsWith_def)
      then show ?thesis by simp
    qed
    ultimately show ?thesis using True by (simp add: startsWith_def)
  next
    case False
    then obtain j where j: "indexOf s p = Some j" "i = Suc j" using Cons.prems by auto
    from Cons.IH[OF j(1)] j(2) show ?thesis by simp
  qed
qed

lemma extractContent_between:
  assumes "indexOf res startMarker = Some i" "indexOf res endMarker = Some j"
    and "i + length startMarker \<le> j"
  shows "\<exists>content. extractContent (Some res) = Inr (replace_CRLF content) \<and>
           res = take i res @ startMarker @ content @ endMarker @ drop (j + length endMarker) res"
proof -
  let ?a = "i + length startMarker"
  let ?content = "take (j - ?a) (drop ?a res)"
  have s: "take (length startMarker) (drop i res) = startMarker"
    using indexOf_found[OF assms(1)] by simp
  have e: "take (length endMarker) (drop j res) = endMarker" and jl: "j + length endMarker \<le> length res"
    using indexOf_found[OF assms(2)] by simp_all
  have sub: "substring res ?a j = ?content"
    using assms(3) jl by (simp add: substring_def Let_def min_def max_def)
  have x: "extractContent (Some res) = Inr (replace_CRLF ?content)"
    using assms(1,2) sub by (simp add: extractContent_def)
  have "res = take i res @ drop i res" by simp
  also have "drop i res = take (length startMarker) (drop i res) @ drop ?a res"
    by (metis append_take_drop_id drop_drop add.commute)
  also have "drop ?a res = ?content @ drop j res"
    using assms(3) by (metis append_take_drop_id drop_drop le_add_diff_inverse2)
  also have "drop j res = take (length endMarker) (drop j res) @ drop (j + length endMarker) res"
    by (metis append_take_drop_id drop_drop add.commute)
  finally have "res = take i res @ startMarker @ ?content @ endMarker @ drop (j + length endMarker) res"
    using s e by simp
  with x show ?thesis by blast
qed

text \<open>
  C7. \<open>downloadCode\<close> looks for the end marker from the start of the response and not
  from the end of the start marker. When the file holds the text \<open>FILE_END===\<close>, the
  device prints \<open>===FILE_START===FILE_END======FILE_END===\<close>; the first end marker is
  found at index 13, inside the start marker, \<open>substring(16, 13)\<close> swaps its bounds,
  and the call returns \<open>===\<close> and not the content between the markers.
\<close>

theorem downloadCode_end_marker_in_content:
  "fst (downloadCode ''main.py''
          (connected_controller\<lparr>polls := device_replies ''main.py'' ''FILE_END===''\<rparr>)) =
     Inr ''===''"
  by code_simp

lemma loop_two_timeouts:
  assumes "polls st = [] # [] # rest" "retryCount sc = 0"
  shows "readUntilPrompt_loop sc st = (None, st\<lparr>polls := rest\<rparr>)"
proof -
  have "readUntilPrompt_loop sc st =
          readUntilPrompt_loop (sc\<lparr>retryCount := Suc (retryCount sc)\<rparr>) (st\<lparr>polls := [] # rest\<rparr>)"
    using assms by (simp add: loop_step[where d="[]" and ps="[] # rest"] scanBody_empty)
  also have "\<dots> = (None, st\<lparr>polls := rest\<rparr>)"
    using assms by (simp add: loop_step[where d="[]" and ps="rest"] scanBody_empty)
  finally show ?thesis .
qed

lemma readUntilPrompt_two_timeouts:
  assumes "connected st" "polls st = [] # [] # rest"
  shows "readUntilPrompt st = (Inr None, st\<lparr>polls := rest\<rparr>)"
  using assms
  by (simp add: readUntilPrompt_def Let_def
        loop_two_timeouts[where rest=rest] createBufferConsumer_def removeBufferConsumer_def)

lemma interrupt_ok:
  assumes "connected st" "interrupt st = (Inr x, st1)"
  shows "connected st1 \<and> writer st1"
proof -
  have w: "writer st" using assms(2) by (auto simp: interrupt_def split: if_splits)
  let ?s = "st\<lparr>calls := calls st @ [WriterWrite ctrlC, WriterWrite ctrlC]\<rparr>"
  obtain ps e where f: "snd (readUntilPrompt ?s) = ?s\<lparr>polls := ps, lastLineEcho := e\<rparr>"
    using readUntilPrompt_frame by blast
  have "st1 = snd (readUntilPrompt ?s)"
    using assms(2) w
    by (auto simp: interrupt_def on_ok_def split: prod.splits sum.splits option.splits)
  with f assms(1) w show ?thesis by simp
qed

lemma sendLine_ok:
  assumes "connected st" "writer st" "sendLine line st = (r, st1)"
  shows "connected st1 \<and> writer st1"
  using sendLine_frame[OF assms(1,2), of line] assms by auto

text \<open>
  C10. In \<open>downloadCode\<close>, when the interrupts and the two lines of the \<open>try\<close> block
  went through and the scanner returns null for the empty line that runs the block,
  \<open>checkResult.includes\<close> is called on null: the call fails with a type error, not
  with the file-not-found or the not-responding error. This is what happens when the
  two polls after the empty line time out.
\<close>

theorem downloadCode_null_probe:
  assumes "connected st" "interrupt st = (Inr (), st1)"
    "sendLine (probeTry filename) st1 = (Inr r1, st2)"
    "sendLine probeExcept st2 = (Inr r2, st3)"
  shows "(sendLine [] st3 = (Inr None, st4) \<longrightarrow>
            downloadCode filename st = (Inl TypeError, st4)) \<and>
         (polls st3 = [] # [] # rest \<longrightarrow>
            downloadCode filename st =
              (Inl TypeError, st3\<lparr>calls := calls st3 @ [WriterWrite CRLF], polls := rest\<rparr>))"
proof -
  have unfold: "downloadCode filename st =
      on_ok (sendLine [] st3) (\<lambda>checkResult st4.
          case checkResult of
            None \<Rightarrow> (Inl TypeError, st4)
          | Some check \<Rightarrow>
              if str_includes check ''FILE_NOT_FOUND'' then (Inl (FileNotFound filename), st4)
              else
                on_ok (sendLine (readCommand filename) st4) (\<lambda>_ st5.
                on_ok (sendLine printCommand st5) (\<lambda>result st6.
                  (extractContent result, st6))))"
    using assms by (simp add: downloadCode_def on_ok_def)
  have c3: "connected st3 \<and> writer st3"
    using interrupt_ok[OF assms(1,2)] sendLine_ok assms(3,4) by blast
  have two: "polls st3 = [] # [] # rest \<Longrightarrow>
      sendLine [] st3 = (Inr None, st3\<lparr>calls := calls st3 @ [WriterWrite CRLF], polls := rest\<rparr>)"
    using c3 by (simp add: sendLine_def readUntilPrompt_two_timeouts[where rest=rest])
  show ?thesis using unfold two by (auto simp: on_ok_def)
qed

theorem downloadCode_null_probe_witness:
  "connected silent_probe \<and>
   fst (interrupt silent_probe) = Inr () \<and>
   polls (snd (sendLine probeExcept
            (snd (sendLine (probeTry ''main.py'') (snd (interrupt silent_probe)))))) = [[], []] \<and>
   fst (downloadCode ''main.py'' silent_probe) = Inl TypeError"
proof -
  let ?S1 = "snd (interrupt silent_probe)"
  let ?S2 = "snd (sendLine (probeTry ''main.py'') ?S1)"
  let ?S3 = "snd (sendLine probeExcept ?S2)"
  have c: "connected silent_probe"
    by (simp add: silent_probe_def connected_controller_def new_controller_def)
  have i: "fst (interrupt silent_probe) = Inr ()" by code_simp
  then have h1: "interrupt silent_probe = (Inr (), ?S1)" by (simp add: prod_eq_iff)
  have "fst (sendLine (probeTry ''main.py'') ?S1) = Inr (Some [])" by code_simp
  then have h2: "sendLine (probeTry ''main.py'') ?S1 = (Inr (Some []), ?S2)"
    by (simp add: prod_eq_iff)
  have "fst (sendLine probeExcept ?S2) = Inr (Some [])" by code_simp
  then have h3: "sendLine probeExcept ?S2 = (Inr (Some []), ?S3)" by (simp add: prod_eq_iff)
  have p: "polls ?S3 = [] # [] # []" by code_simp
  from downloadCode_null_probe[OF c h1 h2 h3, of _ "[]"] p
  have "fst (downloadCode ''main.py'' silent_probe) = Inl TypeError" by simp
  with c i p show ?thesis by simp
qed

section \<open>Raw executor: one line\<close>

declare sendTimes.simps(2) [simp del]

lemma sendTimes_frame:
  assumes "connected st" "writer st"
  shows "connected (sendTimes k line st) \<and> writer (sendTimes k line st) \<and>
         calls (sendTimes k line st) = calls st @ replicate k (WriterWrite (line @ CRLF))"
proof (induction k)
  case 0
  with assms show ?case by simp
next
  case (Suc k)
  then have c: "connected (sendTimes k line st)" and w: "writer (sendTimes k line st)" by auto
  from sendLine_frame[OF c w, of line] Suc show ?case
    by (auto simp: replicate_append_same sendTimes.simps(2))
qed

lemma sendLine_sendTimes:
  assumes "connected st" "writer st"
  shows "sendLine line (sendTimes k line st) = (Inr (response k line st), sendTimes (Suc k) line st)"
proof -
  have c: "connected (sendTimes k line st)" and w: "writer (sendTimes k line st)"
    using sendTimes_frame[OF assms] by auto
  from sendLine_frame[OF c w, of line] show ?thesis
    by (auto simp: response_def sendTimes.simps(2))
qed

lemma retryLoop_unfold:
  assumes "connected st" "writer st" "attempt < 3"
  shows "retryLoop attempt line (sendTimes k line st) =
           (if accepted (response k line st) then (Inr True, sendTimes (Suc k) line st)
            else retryLoop (Suc attempt) line (sendTimes (Suc k) line st))"
  using assms(3)
  by (subst retryLoop.simps)
     (simp add: sendLine_sendTimes[OF assms(1,2)] accepted_def split: option.splits)

lemma retryLoop_end: "retryLoop 3 line st = (Inr False, st)"
  by (subst retryLoop.simps) simp

lemma retryLoop_closed:
  assumes "connected st" "writer st"
  shows "retryLoop 0 line st =
           (if accepted (response 0 line st) then (Inr True, sendTimes 1 line st)
            else if accepted (response 1 line st) then (Inr True, sendTimes 2 line st)
            else if accepted (response 2 line st) then (Inr True, sendTimes 3 line st)
            else (Inr False, sendTimes 3 line st))"
proof -
  have a: "retryLoop 0 line (sendTimes 0 line st) =
           (if accepted (response 0 line st) then (Inr True, sendTimes (Suc 0) line st)
            else retryLoop (Suc 0) line (sendTimes (Suc 0) line st))"
    by (rule retryLoop_unfold[OF assms]) simp
  have b: "retryLoop (Suc 0) line (sendTimes (Suc 0) line st) =
           (if accepted (response (Suc 0) line st) then (Inr True, sendTimes (Suc (Suc 0)) line st)
            else retryLoop (Suc (Suc 0)) line (sendTimes (Suc (Suc 0)) line st))"
    by (rule retryLoop_unfold[OF assms]) simp
  have c: "retryLoop (Suc (Suc 0)) line (sendTimes (Suc (Suc 0)) line st) =
           (if accepted (response (Suc (Suc 0)) line st) then (Inr True, sendTimes (Suc (Suc (Suc 0))) line st)
            else retryLoop (Suc (Suc (Suc 0))) line (sendTimes (Suc (Suc (Suc 0))) line st))"
    by (rule retryLoop_unfold[OF assms]) simp
  have n: "(1::nat) = Suc 0" "(2::nat) = Suc (Suc 0)" "(3::nat) = Suc (Suc (Suc 0))"
    by simp_all
  have e: "retryLoop (Suc (Suc (Suc 0))) line (sendTimes (Suc (Suc (Suc 0))) line st) =
             (Inr False, sendTimes (Suc (Suc (Suc 0))) line st)"
    using retryLoop_end[of line "sendTimes (Suc (Suc (Suc 0))) line st"] by (simp only: n)
  have a': "retryLoop 0 line st =
           (if accepted (response 0 line st) then (Inr True, sendTimes (Suc 0) line st)
            else retryLoop (Suc 0) line (sendTimes (Suc 0) line st))"
    using a by (simp only: sendTimes.simps(1))
  show ?thesis
    unfolding n a' b c e ..
qed

text \<open>The body of the loop over the lines, in closed form.\<close>

lemma executeLine_closed:
  assumes "connected st" "writer st" "trim line \<noteq> []"
  shows "(retry \<and> \<not> startsWith (actualLine line) ''exec('' \<longrightarrow>
            executeLine retry line st =
              (if accepted (response 0 (actualLine line) st)
               then (Inr (), sendTimes 1 (actualLine line) st)
               else if accepted (response 1 (actualLine line) st)
               then (Inr (), sendTimes 2 (actualLine line) st)
               else if accepted (response 2 (actualLine line) st)
               then (Inr (), sendTimes 3 (actualLine line) st)
               else (Inl FailedAfterRetries, sendTimes 3 (actualLine line) st))) \<and>
         (\<not> retry \<or> startsWith (actualLine line) ''exec('' \<longrightarrow>
            executeLine retry line st =
              (if response 0 (actualLine line) st = None then Inl FailedToSendLine else Inr (),
               sendTimes 1 (actualLine line) st)) \<and>
         calls (sendTimes k (actualLine line) st) =
           calls st @ replicate k (WriterWrite (actualLine line @ CRLF))"
proof -
  let ?a = "actualLine line"
  have one: "sendLine ?a st = (Inr (response 0 ?a st), sendTimes 1 ?a st)"
    using sendLine_sendTimes[OF assms(1,2), of ?a 0] by simp
  have body: "executeLine retry line st =
      (if \<not> retry \<or> startsWith ?a ''exec(''
       then on_ok (sendLine ?a st)
              (\<lambda>r st'. case r of None \<Rightarrow> (Inl FailedToSendLine, st')
                                | Some _ \<Rightarrow> (Inr (), st'))
       else on_ok (retryLoop 0 ?a st)
              (\<lambda>success st'. if \<not> success then (Inl FailedAfterRetries, st')
                              else (Inr (), st')))"
    using assms(3) by (simp add: executeLine_def Let_def actualLine_def)
  have single: "\<not> retry \<or> startsWith ?a ''exec('' \<Longrightarrow>
            executeLine retry line st =
              (if response 0 ?a st = None then Inl FailedToSendLine else Inr (),
               sendTimes 1 ?a st)"
    unfolding body one by (simp add: on_ok_def split: option.splits)
  have retried: "retry \<and> \<not> startsWith ?a ''exec('' \<Longrightarrow>
            executeLine retry line st =
              (if accepted (response 0 ?a st) then (Inr (), sendTimes 1 ?a st)
               else if accepted (response 1 ?a st) then (Inr (), sendTimes 2 ?a st)
               else if accepted (response 2 ?a st) then (Inr (), sendTimes 3 ?a st)
               else (Inl FailedAfterRetries, sendTimes 3 ?a st))"
    unfolding body retryLoop_closed[OF assms(1,2)] by (simp add: on_ok_def)
  from single retried sendTimes_frame[OF assms(1,2), of k ?a]
  show ?thesis by blast
qed

section \<open>Raw executor: the whole payload\<close>

lemma last_dropWhile_keep: "dropWhile P xs \<noteq> [] \<Longrightarrow> last (dropWhile P xs) = last xs"
  by (induction xs) (auto split: if_splits)

lemma trim_ends:
  assumes "trim s \<noteq> []"
  shows "\<not> isWhiteSpace (hd (trim s)) \<and> \<not> isWhiteSpace (last (trim s))"
proof -
  let ?t = "dropWhile isWhiteSpace s"
  let ?u = "dropWhile isWhiteSpace (rev ?t)"
  have u: "?u \<noteq> []" using assms by (simp add: trim_def)
  have t: "?t \<noteq> []"
  proof
    assume a: "?t = []"
    have "?u = dropWhile isWhiteSpace (rev [])" by (simp only: a)
    with u show False by simp
  qed
  have "last (trim s) = hd ?u" using u by (simp add: trim_def last_rev)
  moreover have "\<not> isWhiteSpace (hd ?u)" using u by (rule hd_dropWhile)
  moreover have "hd (trim s) = last ?u" using u by (simp add: trim_def hd_rev)
  moreover have "last ?u = last (rev ?t)" using u by (rule last_dropWhile_keep)
  moreover have "last (rev ?t) = hd ?t" using t by (simp add: last_rev)
  moreover have "\<not> isWhiteSpace (hd ?t)" using t by (rule hd_dropWhile)
  ultimately show ?thesis by simp
qed

lemma executeLine_skip: "trim line = [] \<Longrightarrow> executeLine retry line st = (Inr (), st)"
  by (simp add: executeLine_def)

lemma executeLine_state:
  assumes "connected st" "writer st" "trim line \<noteq> []"
  shows "\<exists>k. 1 \<le> k \<and> k \<le> (if retry then 3 else 1) \<and>
             snd (executeLine retry line st) = sendTimes k (actualLine line) st"
proof -
  let ?a = "actualLine line"
  have one: "sendLine ?a st = (Inr (response 0 ?a st), sendTimes 1 ?a st)"
    using sendLine_sendTimes[OF assms(1,2), of ?a 0] by simp
  have body: "executeLine retry line st =
      (if \<not> retry \<or> startsWith ?a ''exec(''
       then on_ok (sendLine ?a st)
              (\<lambda>r st'. case r of None \<Rightarrow> (Inl FailedToSendLine, st')
                                | Some _ \<Rightarrow> (Inr (), st'))
       else on_ok (retryLoop 0 ?a st)
              (\<lambda>success st'. if \<not> success then (Inl FailedAfterRetries, st')
                              else (Inr (), st')))"
    using assms(3) by (simp add: executeLine_def Let_def actualLine_def)
  show ?thesis
  proof (cases "\<not> retry \<or> startsWith ?a ''exec(''")
    case True
    then have "snd (executeLine retry line st) = sendTimes 1 ?a st"
      unfolding body one by (simp add: on_ok_def split: option.splits)
    then show ?thesis by (intro exI[of _ 1]) simp
  next
    case False
    then have "snd (executeLine retry line st) = sendTimes 1 ?a st \<or>
               snd (executeLine retry line st) = sendTimes 2 ?a st \<or>
               snd (executeLine retry line st) = sendTimes 3 ?a st"
      unfolding body retryLoop_closed[OF assms(1,2)] by (simp add: on_ok_def)
    moreover have r: "retry" using False by simp
    ultimately consider
        "snd (executeLine retry line st) = sendTimes 1 ?a st"
      | "snd (executeLine retry line st) = sendTimes 2 ?a st"
      | "snd (executeLine retry line st) = sendTimes 3 ?a st"
      by blast
    then show ?thesis
    proof cases
      case 1
      with r show ?thesis by (intro exI[of _ 1]) simp
    next
      case 2
      with r show ?thesis by (intro exI[of _ 2]) simp
    next
      case 3
      with r show ?thesis by (intro exI[of _ 3]) simp
    qed
  qed
qed

lemma writesOf_Cons:
  "writesOf (l # ls) (k # ks) = replicate k (WriterWrite (l @ CRLF)) @ writesOf ls ks"
  by (simp add: writesOf_def)

lemma writesOf_Nil: "writesOf [] ks = []"
  by (simp add: writesOf_def)

lemma writesOf_zeros: "writesOf ls (replicate (length ls) 0) = []"
  by (induction ls) (simp_all add: writesOf_def)

lemma writesOf_ones:
  "length ks = length ls \<Longrightarrow> \<forall>k\<in>set ks. k = 1 \<Longrightarrow>
     writesOf ls ks = map (\<lambda>l. WriterWrite (l @ CRLF)) ls"
  by (induction ks ls rule: list_induct2) (simp_all add: writesOf_def)

lemma writesOf_set:
  "c \<in> set (writesOf ls ks) \<Longrightarrow> \<exists>l\<in>set ls. c = WriterWrite (l @ CRLF)"
  by (auto simp: writesOf_def dest: set_zip_leftD)

lemma executeLines_writes:
  assumes "connected st" "writer st"
  shows "\<exists>ks. length ks = length (filter (\<lambda>l. trim l \<noteq> []) lines) \<and>
           (\<forall>k\<in>set ks. k \<le> (if retry then 3 else 1)) \<and>
           (fst (executeLines retry lines st) = Inr () \<longrightarrow> (\<forall>k\<in>set ks. 1 \<le> k)) \<and>
           calls (snd (executeLines retry lines st)) =
             calls st @ writesOf (map actualLine (filter (\<lambda>l. trim l \<noteq> []) lines)) ks"
  using assms
proof (induction lines arbitrary: st)
  case Nil
  then show ?case by (simp add: writesOf_Nil)
next
  case (Cons line lines)
  let ?rest = "filter (\<lambda>l. trim l \<noteq> []) lines"
  show ?case
  proof (cases "trim line = []")
    case True
    then have "executeLines retry (line # lines) st = executeLines retry lines st"
      by (simp add: executeLine_skip on_ok_def)
    with Cons.IH[OF Cons.prems] True show ?thesis by simp
  next
    case False
    obtain k where k: "1 \<le> k" "k \<le> (if retry then 3 else 1)"
      and s1: "snd (executeLine retry line st) = sendTimes k (actualLine line) st"
      using executeLine_state[OF Cons.prems False] by blast
    let ?st1 = "sendTimes k (actualLine line) st"
    have f1: "connected ?st1" "writer ?st1"
      "calls ?st1 = calls st @ replicate k (WriterWrite (actualLine line @ CRLF))"
      using sendTimes_frame[OF Cons.prems, of k "actualLine line"] by auto
    show ?thesis
    proof (cases "fst (executeLine retry line st)")
      case (Inl e)
      then have "executeLines retry (line # lines) st = (Inl e, ?st1)"
        using s1 by (cases "executeLine retry line st") (simp add: on_ok_def)
      then have "calls (snd (executeLines retry (line # lines) st)) =
           calls st @ writesOf (map actualLine (filter (\<lambda>l. trim l \<noteq> []) (line # lines)))
                        (k # replicate (length ?rest) 0)"
        and "fst (executeLines retry (line # lines) st) \<noteq> Inr ()"
        using False f1(3) writesOf_zeros[of "map actualLine ?rest"]
        by (simp_all add: writesOf_Cons)
      moreover have "length (k # replicate (length ?rest) 0) =
                     length (filter (\<lambda>l. trim l \<noteq> []) (line # lines))"
        using False by simp
      moreover have "\<forall>j\<in>set (k # replicate (length ?rest) 0). j \<le> (if retry then 3 else 1)"
        using k(2) by auto
      ultimately show ?thesis by blast
    next
      case (Inr u)
      then have eq: "executeLines retry (line # lines) st = executeLines retry lines ?st1"
        using s1 by (cases "executeLine retry line st") (simp add: on_ok_def)
      from Cons.IH[OF f1(1,2)] obtain ks where ks: "length ks = length ?rest"
        "\<forall>k\<in>set ks. k \<le> (if retry then 3 else 1)"
        "fst (executeLines retry lines ?st1) = Inr () \<longrightarrow> (\<forall>k\<in>set ks. 1 \<le> k)"
        "calls (snd (executeLines retry lines ?st1)) = calls ?st1 @ writesOf (map actualLine ?rest) ks"
        by blast
      have "length (k # ks) = length (filter (\<lambda>l. trim l \<noteq> []) (line # lines))"
        using False ks(1) by simp
      moreover have "\<forall>j\<in>set (k # ks). j \<le> (if retry then 3 else 1)"
        using k(2) ks(2) by auto
      moreover have "fst (executeLines retry (line # lines) st) = Inr () \<longrightarrow>
                     (\<forall>j\<in>set (k # ks). 1 \<le> j)"
        using eq k(1) ks(3) by auto
      moreover have "calls (snd (executeLines retry (line # lines) st)) =
           calls st @ writesOf (map actualLine (filter (\<lambda>l. trim l \<noteq> []) (line # lines))) (k # ks)"
        using eq ks(4) f1(3) False by (simp add: writesOf_Cons)
      ultimately show ?thesis by blast
    qed
  qed
qed


lemma interrupt_calls:
  "calls (snd (interrupt st)) =
     calls st @ (if writer st then [WriterWrite ctrlC, WriterWrite ctrlC] else [])"
proof (cases "writer st")
  case False
  then show ?thesis by (simp add: interrupt_def)
next
  case True
  let ?s = "st\<lparr>calls := calls st @ [WriterWrite ctrlC, WriterWrite ctrlC]\<rparr>"
  obtain ps e where f: "snd (readUntilPrompt ?s) = ?s\<lparr>polls := ps, lastLineEcho := e\<rparr>"
    using readUntilPrompt_frame by blast
  have "snd (interrupt st) = snd (readUntilPrompt ?s)"
    using True
    by (auto simp: interrupt_def on_ok_def split: prod.splits sum.splits option.splits)
  with f True show ?thesis by simp
qed

lemma executeCodeRaw_unfold:
  "executeCodeRaw code retry st =
     (if \<not> connected st then (Inl NotConnected, st)
      else case interrupt st of
             (Inl e, st1) \<Rightarrow> (Inl e, st1)
           | (Inr _, st1) \<Rightarrow> executeLines retry (split LF (replace_CR code)) st1)"
  by (simp add: executeCodeRaw_def on_ok_def Let_def split: prod.splits sum.splits)

lemma split_normalised: "split LF (replace_CR s) = splitLines s"
proof (induction s)
  case Nil
  show ?case by (simp add: replace_CR_def)
next
  case (Cons c s)
  have ne: "CR \<noteq> LF" by (simp add: CR_def LF_def)
  have step: "replace_CR (c # s) = (if c = CR then LF else c) # replace_CR s"
    by (simp add: replace_CR_def)
  show ?case
    unfolding step using Cons.IH ne by (auto simp: CR_def LF_def)
qed

lemma splitLines_no_terminator:
  "l \<in> set (splitLines s) \<Longrightarrow> CHR 0x0D \<notin> set l \<and> CHR 0x0A \<notin> set l"
proof (induction s arbitrary: l)
  case Nil
  then show ?case by simp
next
  case (Cons c s)
  show ?case
  proof (cases "c = CHR 0x0D \<or> c = CHR 0x0A")
    case True
    with Cons show ?thesis by auto
  next
    case False
    obtain h t where ht: "splitLines s = h # t"
      by (cases "splitLines s") (cases s; auto split: if_splits list.splits)+
    with Cons.prems False have "l = c # h \<or> l \<in> set t" by auto
    then show ?thesis
    proof
      assume "l = c # h"
      with Cons.IH[of h] ht False show ?thesis by auto
    next
      assume "l \<in> set t"
      with Cons.IH[of l] ht show ?thesis by auto
    qed
  qed
qed

lemma set_trim: "set (trim s) \<subseteq> set s"
proof -
  have "set (trim s) \<subseteq> set (dropWhile isWhiteSpace s)"
    unfolding trim_def using set_dropWhileD by fastforce
  also have "\<dots> \<subseteq> set s" using set_dropWhileD by fastforce
  finally show ?thesis .
qed

lemma linesToSend_no_terminator:
  assumes "l \<in> set (linesToSend code)"
  shows "CHR 0x0D \<notin> set l \<and> CHR 0x0A \<notin> set l"
proof -
  from assms obtain x where x: "x \<in> set (splitLines code)" "l = actualLine x"
    by (auto simp: linesToSend_def)
  have "set l \<subseteq> set x" using x(2) set_trim[of x] by (auto simp: actualLine_def)
  with splitLines_no_terminator[OF x(1)] show ?thesis by auto
qed

lemma executeLines_append:
  "executeLines retry (pre @ rest) st =
     on_ok (executeLines retry pre st) (\<lambda>_ st'. executeLines retry rest st')"
proof (induction pre arbitrary: st)
  case Nil
  show ?case by (simp add: on_ok_def)
next
  case (Cons l pre)
  show ?case
    by (cases "executeLine retry l st"; cases "fst (executeLine retry l st)")
       (simp_all add: on_ok_def Cons.IH)
qed

lemma executeLines_keeps:
  assumes "connected st" "writer st"
  shows "connected (snd (executeLines retry ls st)) \<and> writer (snd (executeLines retry ls st))"
  using assms
proof (induction ls arbitrary: st)
  case Nil
  then show ?case by simp
next
  case (Cons l ls)
  show ?case
  proof (cases "trim l = []")
    case True
    then have "executeLines retry (l # ls) st = executeLines retry ls st"
      by (simp add: executeLine_skip on_ok_def)
    with Cons show ?thesis by simp
  next
    case False
    obtain k where s1: "snd (executeLine retry l st) = sendTimes k (actualLine l) st"
      using executeLine_state[OF Cons.prems False] by blast
    have f: "connected (sendTimes k (actualLine l) st)" "writer (sendTimes k (actualLine l) st)"
      using sendTimes_frame[OF Cons.prems, of k "actualLine l"] by auto
    show ?thesis
    proof (cases "fst (executeLine retry l st)")
      case (Inl e)
      then have "snd (executeLines retry (l # ls) st) = sendTimes k (actualLine l) st"
        using s1 by (cases "executeLine retry l st") (simp add: on_ok_def)
      with f show ?thesis by simp
    next
      case (Inr u)
      then have "executeLines retry (l # ls) st =
                 executeLines retry ls (sendTimes k (actualLine l) st)"
        using s1 by (cases "executeLine retry l st") (simp add: on_ok_def)
      with Cons.IH[OF f] show ?thesis by simp
    qed
  qed
qed

text \<open>
  C5. In a run of \<open>executeCodeRaw\<close> on a connected controller, take any line of the
  payload that is not skipped, the interrupts and the lines before it having gone
  through. With retry enabled and a line that does not begin with \<open>exec(\<close>, the line
  is sent up to three times: the first response that is not null and does not
  contain \<open>Traceback\<close> is accepted, no further attempt is made and the run goes on
  with the lines that follow; after three responses that are not accepted the whole
  call fails. With retry disabled, or for a line that begins with \<open>exec(\<close>, the line
  is sent once, and the whole call fails if that response is null and goes on with
  the following lines if not. Each send is one write of the line on the transport.
\<close>

theorem executeCodeRaw_retry:
  assumes "connected st0" "interrupt st0 = (Inr (), st1)"
    "splitLines code = pre @ line # post"
    "executeLines retry pre st1 = (Inr (), st)"
    "trim line \<noteq> []"
  shows "(retry \<and> \<not> startsWith (actualLine line) ''exec('' \<longrightarrow>
            executeCodeRaw code retry st0 =
              (if accepted (response 0 (actualLine line) st)
               then executeLines retry post (sendTimes 1 (actualLine line) st)
               else if accepted (response 1 (actualLine line) st)
               then executeLines retry post (sendTimes 2 (actualLine line) st)
               else if accepted (response 2 (actualLine line) st)
               then executeLines retry post (sendTimes 3 (actualLine line) st)
               else (Inl FailedAfterRetries, sendTimes 3 (actualLine line) st))) \<and>
         (\<not> retry \<or> startsWith (actualLine line) ''exec('' \<longrightarrow>
            executeCodeRaw code retry st0 =
              (if response 0 (actualLine line) st = None
               then (Inl FailedToSendLine, sendTimes 1 (actualLine line) st)
               else executeLines retry post (sendTimes 1 (actualLine line) st))) \<and>
         calls (sendTimes k (actualLine line) st) =
           calls st @ replicate k (WriterWrite (actualLine line @ CRLF))"
proof -
  let ?a = "actualLine line"
  have c1: "connected st1" "writer st1" using interrupt_ok[OF assms(1,2)] by auto
  have st: "st = snd (executeLines retry pre st1)" using assms(4) by simp
  have c: "connected st" and w: "writer st"
    using executeLines_keeps[OF c1, of retry pre] st by auto
  have "executeCodeRaw code retry st0 = executeLines retry (pre @ line # post) st1"
    using assms(1,2,3) by (simp add: executeCodeRaw_unfold split_normalised)
  also have "\<dots> = executeLines retry (line # post) st"
    using assms(4) by (simp add: executeLines_append on_ok_def)
  finally have run: "executeCodeRaw code retry st0 =
      on_ok (executeLine retry line st) (\<lambda>_ st'. executeLines retry post st')"
    by simp
  note closed = executeLine_closed[OF c w assms(5), of retry k]
  have single: "\<not> retry \<or> startsWith ?a ''exec('' \<Longrightarrow>
            executeCodeRaw code retry st0 =
              (if response 0 ?a st = None then (Inl FailedToSendLine, sendTimes 1 ?a st)
               else executeLines retry post (sendTimes 1 ?a st))"
    using closed unfolding run by (simp add: on_ok_def)
  have retried: "retry \<and> \<not> startsWith ?a ''exec('' \<Longrightarrow>
            executeCodeRaw code retry st0 =
              (if accepted (response 0 ?a st)
               then executeLines retry post (sendTimes 1 ?a st)
               else if accepted (response 1 ?a st)
               then executeLines retry post (sendTimes 2 ?a st)
               else if accepted (response 2 ?a st)
               then executeLines retry post (sendTimes 3 ?a st)
               else (Inl FailedAfterRetries, sendTimes 3 ?a st))"
    using closed unfolding run by (simp add: on_ok_def)
  from single retried closed show ?thesis by blast
qed

theorem executeCodeRaw_retry_witness:
  "fst (executeCodeRaw (''  a = 1'' @ [LF] @ ''b = 2'') True flaky_device) = Inr () \<and>
   calls (snd (executeCodeRaw (''  a = 1'' @ [LF] @ ''b = 2'') True flaky_device)) =
     [WriterWrite ctrlC, WriterWrite ctrlC, WriterWrite (''a = 1'' @ CRLF),
      WriterWrite (''a = 1'' @ CRLF), WriterWrite (''b = 2'' @ CRLF)] \<and>
   fst (executeCodeRaw (''  a = 1'' @ [LF] @ ''b = 2'') True stubborn_device) =
     Inl FailedAfterRetries \<and>
   calls (snd (executeCodeRaw (''  a = 1'' @ [LF] @ ''b = 2'') True stubborn_device)) =
     [WriterWrite ctrlC, WriterWrite ctrlC, WriterWrite (''a = 1'' @ CRLF),
      WriterWrite (''a = 1'' @ CRLF), WriterWrite (''a = 1'' @ CRLF)]"
proof -
  let ?code = "''  a = 1'' @ [LF] @ ''b = 2''"
  let ?F = "snd (interrupt flaky_device)"
  let ?S = "snd (interrupt stubborn_device)"
  have ls: "splitLines ?code = [] @ ''  a = 1'' # [''b = 2'']" by code_simp
  have t: "trim ''  a = 1'' \<noteq> []" by code_simp
  have a: "actualLine ''  a = 1'' = ''a = 1''" by code_simp
  have e: "\<not> startsWith ''a = 1'' ''exec(''" by code_simp
  have cF: "connected flaky_device" and cS: "connected stubborn_device"
    by (simp_all add: flaky_device_def stubborn_device_def connected_controller_def
          new_controller_def)
  have "fst (interrupt flaky_device) = Inr ()" by code_simp
  then have iF: "interrupt flaky_device = (Inr (), ?F)" by (simp add: prod_eq_iff)
  have "fst (interrupt stubborn_device) = Inr ()" by code_simp
  then have iS: "interrupt stubborn_device = (Inr (), ?S)" by (simp add: prod_eq_iff)
  have f0: "\<not> accepted (response 0 ''a = 1'' ?F)" by code_simp
  have f1: "accepted (response 1 ''a = 1'' ?F)" by code_simp
  have s0: "\<not> accepted (response 0 ''a = 1'' ?S)" by code_simp
  have s1: "\<not> accepted (response 1 ''a = 1'' ?S)" by code_simp
  have s2: "\<not> accepted (response 2 ''a = 1'' ?S)" by code_simp
  have runF: "executeCodeRaw ?code True flaky_device =
              executeLines True [''b = 2''] (sendTimes 2 ''a = 1'' ?F)"
    using executeCodeRaw_retry[OF cF iF ls _ t, of True ?F 0] a e f0 f1 by simp
  have restF: "fst (executeLines True [''b = 2''] (sendTimes 2 ''a = 1'' ?F)) = Inr ()"
    by code_simp
  have callsF: "calls (snd (executeLines True [''b = 2''] (sendTimes 2 ''a = 1'' ?F))) =
     [WriterWrite ctrlC, WriterWrite ctrlC, WriterWrite (''a = 1'' @ CRLF),
      WriterWrite (''a = 1'' @ CRLF), WriterWrite (''b = 2'' @ CRLF)]"
    by code_simp
  have cs: "calls ?S = [WriterWrite ctrlC, WriterWrite ctrlC]" by code_simp
  have runS: "executeCodeRaw ?code True stubborn_device =
              (Inl FailedAfterRetries, sendTimes 3 ''a = 1'' ?S)"
    and sent: "calls (sendTimes 3 ''a = 1'' ?S) =
               calls ?S @ replicate 3 (WriterWrite (''a = 1'' @ CRLF))"
    using executeCodeRaw_retry[OF cS iS ls _ t, of True ?S 3] a e s0 s1 s2 by simp_all
  show ?thesis
    unfolding runF runS using restF callsF sent cs by (simp add: numeral_3_eq_3)
qed

text \<open>
  C6. A run of \<open>executeCodeRaw\<close> that succeeds has written the two interrupts and
  then, in order, the lines of \<open>linesToSend\<close>: the lines of the payload, where a
  carriage return ends a line as a line feed does, without the blank lines, and with
  the empty line in place of each line that is the sentinel \<open>_EMPTY_\<close>. Each of these
  lines is written once without retry, and between one and three times with it; no
  carriage return or line feed of the payload is part of a line that is sent.
\<close>

theorem executeCodeRaw_lines:
  assumes "executeCodeRaw code retry st = (Inr (), st')"
  shows "(\<exists>ks. length ks = length (linesToSend code) \<and>
            (\<forall>k\<in>set ks. 1 \<le> k \<and> k \<le> (if retry then 3 else 1)) \<and>
            calls st' = calls st @ [WriterWrite ctrlC, WriterWrite ctrlC]
                          @ writesOf (linesToSend code) ks) \<and>
         (\<not> retry \<longrightarrow>
            calls st' = calls st @ [WriterWrite ctrlC, WriterWrite ctrlC]
                          @ map (\<lambda>l. WriterWrite (l @ CRLF)) (linesToSend code)) \<and>
         (\<forall>l\<in>set (linesToSend code). CHR 0x0D \<notin> set l \<and> CHR 0x0A \<notin> set l)"
proof -
  let ?ls = "split LF (replace_CR code)"
  have c: "connected st"
    using assms by (auto simp: executeCodeRaw_unfold split: if_splits)
  obtain x st1 where i: "interrupt st = (Inr x, st1)"
    and run: "executeLines retry ?ls st1 = (Inr (), st')"
    using assms c
    by (auto simp: executeCodeRaw_unfold split: if_splits prod.splits sum.splits)
  have w1: "connected st1" "writer st1" using interrupt_ok[OF c i] by auto
  have w: "writer st" using i by (auto simp: interrupt_def split: if_splits)
  have c1: "calls st1 = calls st @ [WriterWrite ctrlC, WriterWrite ctrlC]"
    using interrupt_calls[of st] i w by simp
  from executeLines_writes[OF w1, of ?ls retry] run
  obtain ks where ks: "length ks = length (filter (\<lambda>l. trim l \<noteq> []) ?ls)"
    "\<forall>k\<in>set ks. k \<le> (if retry then 3 else 1)" "\<forall>k\<in>set ks. 1 \<le> k"
    "calls st' = calls st1 @ writesOf (map actualLine (filter (\<lambda>l. trim l \<noteq> []) ?ls)) ks"
    by auto
  have len: "length ks = length (linesToSend code)"
    using ks(1) by (simp add: linesToSend_def split_normalised)
  have all: "calls st' = calls st @ [WriterWrite ctrlC, WriterWrite ctrlC]
                          @ writesOf (linesToSend code) ks"
    using ks(4) c1 by (simp add: linesToSend_def split_normalised)
  have first: "\<exists>ks. length ks = length (linesToSend code) \<and>
            (\<forall>k\<in>set ks. 1 \<le> k \<and> k \<le> (if retry then 3 else 1)) \<and>
            calls st' = calls st @ [WriterWrite ctrlC, WriterWrite ctrlC]
                          @ writesOf (linesToSend code) ks"
    using len all ks(2,3) by blast
  have second: "\<not> retry \<Longrightarrow>
            calls st' = calls st @ [WriterWrite ctrlC, WriterWrite ctrlC]
                          @ map (\<lambda>l. WriterWrite (l @ CRLF)) (linesToSend code)"
  proof -
    assume "\<not> retry"
    then have "\<forall>k\<in>set ks. k = 1" using ks(2,3) by fastforce
    from writesOf_ones[OF len this] all show ?thesis by simp
  qed
  have third: "\<forall>l\<in>set (linesToSend code). CHR 0x0D \<notin> set l \<and> CHR 0x0A \<notin> set l"
    using linesToSend_no_terminator by blast
  from first second third show ?thesis by blast
qed

text \<open>The payload of the witness: an indented line ended by a lone carriage return,
  the sentinel ended by CR LF, an empty line, \<open>b\<close> ended by a lone carriage return,
  and a last line of blanks.\<close>

theorem executeCodeRaw_lines_witness:
  "fst (executeCodeRaw
          (''  a = 1'' @ [CHR 0x0D] @ ''_EMPTY_'' @ [CHR 0x0D, CHR 0x0A, CHR 0x0A] @ ''b''
             @ [CHR 0x0D] @ ''   '')
          False (ready_device 4)) = Inr () \<and>
   linesToSend
     (''  a = 1'' @ [CHR 0x0D] @ ''_EMPTY_'' @ [CHR 0x0D, CHR 0x0A, CHR 0x0A] @ ''b''
        @ [CHR 0x0D] @ ''   '') = [''a = 1'', [], ''b''] \<and>
   calls (snd (executeCodeRaw
          (''  a = 1'' @ [CHR 0x0D] @ ''_EMPTY_'' @ [CHR 0x0D, CHR 0x0A, CHR 0x0A] @ ''b''
             @ [CHR 0x0D] @ ''   '')
          False (ready_device 4))) =
     [WriterWrite [CHR 0x03], WriterWrite [CHR 0x03],
      WriterWrite (''a = 1'' @ [CHR 0x0D, CHR 0x0A]), WriterWrite [CHR 0x0D, CHR 0x0A],
      WriterWrite (''b'' @ [CHR 0x0D, CHR 0x0A])]"
proof -
  let ?code = "''  a = 1'' @ [CHR 0x0D] @ ''_EMPTY_'' @ [CHR 0x0D, CHR 0x0A, CHR 0x0A] @ ''b''
                 @ [CHR 0x0D] @ ''   ''"
  let ?r = "executeCodeRaw ?code False (ready_device 4)"
  have ok: "fst ?r = Inr ()" by code_simp
  then have run: "?r = (Inr (), snd ?r)" by (simp add: prod_eq_iff)
  have ls: "linesToSend ?code = [''a = 1'', [], ''b'']" by code_simp
  have c0: "calls (ready_device 4) = []"
    by (simp add: ready_device_def connected_controller_def new_controller_def)
  from executeCodeRaw_lines[OF run] c0
  have "calls (snd ?r) = [WriterWrite ctrlC, WriterWrite ctrlC]
                          @ map (\<lambda>l. WriterWrite (l @ CRLF)) (linesToSend ?code)"
    by simp
  then have "calls (snd ?r) =
     [WriterWrite [CHR 0x03], WriterWrite [CHR 0x03],
      WriterWrite (''a = 1'' @ [CHR 0x0D, CHR 0x0A]), WriterWrite [CHR 0x0D, CHR 0x0A],
      WriterWrite (''b'' @ [CHR 0x0D, CHR 0x0A])]"
    unfolding ls by (simp add: ctrlC_def CRLF_def CR_def LF_def)
  with ok ls show ?thesis by simp
qed

text \<open>
  C9. Whatever the outcome of \<open>executeCodeRaw\<close>, every write after the two interrupts
  is a line of the payload, trimmed, followed by CR LF: what is sent neither begins
  nor ends with white space, so no indentation reaches the device, and the empty line
  is sent only for a line that is the sentinel once trimmed.
\<close>

theorem executeCodeRaw_sends_trimmed:
  "\<forall>c \<in> set (drop (length (calls st) + 2) (calls (snd (executeCodeRaw code retry st)))).
     \<exists>l \<in> set (split LF (replace_CR code)).
       trim l \<noteq> [] \<and> c = WriterWrite (actualLine l @ CRLF) \<and>
       (actualLine l = [] \<longleftrightarrow> trim l = ''_EMPTY_'') \<and>
       (actualLine l \<noteq> [] \<longrightarrow>
          actualLine l = trim l \<and> \<not> isWhiteSpace (hd (actualLine l)) \<and>
          \<not> isWhiteSpace (last (actualLine l)))"
proof
  fix c
  let ?ls = "split LF (replace_CR code)"
  assume cin: "c \<in> set (drop (length (calls st) + 2) (calls (snd (executeCodeRaw code retry st))))"
  have conn: "connected st"
  proof (rule ccontr)
    assume "\<not> connected st"
    then have "snd (executeCodeRaw code retry st) = st" by (simp add: executeCodeRaw_unfold)
    with cin show False by simp
  qed
  obtain r st1 where i: "interrupt st = (r, st1)" by (cases "interrupt st")
  have c1: "calls st1 = calls st @ (if writer st then [WriterWrite ctrlC, WriterWrite ctrlC] else [])"
    using interrupt_calls[of st] i by simp
  have "\<exists>x. r = Inr x"
  proof (rule ccontr)
    assume "\<not> (\<exists>x. r = Inr x)"
    then obtain e where "r = Inl e" by (cases r) auto
    then have "snd (executeCodeRaw code retry st) = st1"
      using conn i by (simp add: executeCodeRaw_unfold)
    with cin c1 show False by (simp split: if_splits)
  qed
  then obtain x where r: "r = Inr x" by blast
  have w1: "connected st1" "writer st1" using interrupt_ok[OF conn] i r by auto
  have w: "writer st" using i r by (auto simp: interrupt_def split: if_splits)
  have run: "executeCodeRaw code retry st = executeLines retry ?ls st1"
    using conn i r by (simp add: executeCodeRaw_unfold)
  from executeLines_writes[OF w1, of ?ls retry]
  obtain ks where
    "calls (snd (executeLines retry ?ls st1)) =
       calls st1 @ writesOf (map actualLine (filter (\<lambda>l. trim l \<noteq> []) ?ls)) ks"
    by blast
  then have "drop (length (calls st) + 2) (calls (snd (executeCodeRaw code retry st))) =
             writesOf (map actualLine (filter (\<lambda>l. trim l \<noteq> []) ?ls)) ks"
    using run c1 w by simp
  with cin writesOf_set
  obtain a where "a \<in> set (map actualLine (filter (\<lambda>l. trim l \<noteq> []) ?ls))"
    and ca: "c = WriterWrite (a @ CRLF)"
    by metis
  then obtain l where l: "l \<in> set ?ls" "trim l \<noteq> []" "a = actualLine l" by auto
  have e: "actualLine l = [] \<longleftrightarrow> trim l = ''_EMPTY_''"
    using l(2) by (simp add: actualLine_def)
  have n: "actualLine l \<noteq> [] \<longrightarrow>
          actualLine l = trim l \<and> \<not> isWhiteSpace (hd (actualLine l)) \<and>
          \<not> isWhiteSpace (last (actualLine l))"
    using trim_ends[OF l(2)] by (simp add: actualLine_def)
  from l ca e n
  show "\<exists>l \<in> set ?ls.
       trim l \<noteq> [] \<and> c = WriterWrite (actualLine l @ CRLF) \<and>
       (actualLine l = [] \<longleftrightarrow> trim l = ''_EMPTY_'') \<and>
       (actualLine l \<noteq> [] \<longrightarrow>
          actualLine l = trim l \<and> \<not> isWhiteSpace (hd (actualLine l)) \<and>
          \<not> isWhiteSpace (last (actualLine l)))"
    by blast
qed


theorem executeCodeRaw_sends_trimmed_witness:
  "drop (length (calls (ready_device 2)) + 2)
     (calls (snd (executeCodeRaw ''    return x'' True (ready_device 2)))) =
     [WriterWrite (''return x'' @ CRLF)] \<and>
   (\<exists>l \<in> set (split LF (replace_CR ''    return x'')).
       trim l \<noteq> [] \<and> WriterWrite (''return x'' @ CRLF) = WriterWrite (actualLine l @ CRLF) \<and>
       (actualLine l = [] \<longleftrightarrow> trim l = ''_EMPTY_'') \<and>
       (actualLine l \<noteq> [] \<longrightarrow>
          actualLine l = trim l \<and> \<not> isWhiteSpace (hd (actualLine l)) \<and>
          \<not> isWhiteSpace (last (actualLine l))))"
proof -
  have d: "drop (length (calls (ready_device 2)) + 2)
             (calls (snd (executeCodeRaw ''    return x'' True (ready_device 2)))) =
           [WriterWrite (''return x'' @ CRLF)]"
    by code_simp
  from executeCodeRaw_sends_trimmed[of "ready_device 2" "''    return x''" True] d
  show ?thesis by simp
qed

section \<open>The transfer script\<close>

declare slices.simps [simp del]

lemma slices_Nil: "slices n [] = []"
  by (subst slices.simps) simp

lemma slices_Cons:
  "0 < n \<Longrightarrow> xs \<noteq> [] \<Longrightarrow> slices n xs = take n xs # slices n (drop n xs)"
  by (subst slices.simps) simp

lemma concat_slices: "0 < n \<Longrightarrow> concat (slices n xs) = xs"
proof (induction n xs rule: slices.induct)
  case (1 n xs)
  then show ?case by (cases "xs = []") (simp_all add: slices_Nil slices_Cons)
qed

lemma slices_bounds: "0 < n \<Longrightarrow> p \<in> set (slices n xs) \<Longrightarrow> p \<noteq> [] \<and> length p \<le> n"
proof (induction n xs rule: slices.induct)
  case (1 n xs)
  then show ?case by (cases "xs = []") (auto simp: slices_Nil slices_Cons)
qed

lemma substring_ordered: "a \<le> b \<Longrightarrow> substring s a b = take (b - a) (drop a s)"
  by (auto simp: substring_def Let_def min_def max_def)

lemma ceil_div_step:
  assumes "0 < c" "0 < n"
  shows "ceil_div n c = Suc (ceil_div (n - c) c)"
proof (cases "c \<le> n")
  case True
  then have "n + c - 1 = (n - c + c - 1) + c" using assms by simp
  then have "(n + c - 1) div c = ((n - c + c - 1) + c) div c" by (rule arg_cong)
  also have "\<dots> = Suc ((n - c + c - 1) div c)" using assms by (simp only: div_add_self2)
  finally show ?thesis by (simp only: ceil_div_def)
next
  case False
  then have z: "n - c = 0" and k: "n - 1 < c" using assms by simp_all
  have "n + c - 1 = (n - 1) + c" using assms by simp
  then have "(n + c - 1) div c = ((n - 1) + c) div c" by (rule arg_cong)
  also have "\<dots> = Suc ((n - 1) div c)" using assms by (simp only: div_add_self2)
  finally have "(n + c - 1) div c = Suc ((n - 1) div c)" .
  then have "(n + c - 1) div c = 1" using k by simp
  then show ?thesis using z assms by (simp add: ceil_div_def)
qed

lemma pieces_by_index:
  "0 < c \<Longrightarrow>
   map (\<lambda>i. substring xs (i * c) ((i + 1) * c)) [0..<ceil_div (length xs) c] = slices c xs"
proof (induction c xs rule: slices.induct)
  case (1 c xs)
  show ?case
  proof (cases "xs = []")
    case True
    then show ?thesis using "1.prems" by (simp add: slices_Nil ceil_div_def)
  next
    case False
    have step: "ceil_div (length xs) c = Suc (ceil_div (length (drop c xs)) c)"
      using ceil_div_step[of c "length xs"] "1.prems" False by simp
    have shift: "\<And>i. substring xs (Suc i * c) ((Suc i + 1) * c) =
                     substring (drop c xs) (i * c) ((i + 1) * c)"
      by (simp add: substring_ordered add.commute)
    have "map (\<lambda>i. substring xs (i * c) ((i + 1) * c)) [0..<Suc (ceil_div (length (drop c xs)) c)] =
          substring xs 0 c #
          map (\<lambda>i. substring xs (Suc i * c) ((Suc i + 1) * c)) [0..<ceil_div (length (drop c xs)) c]"
      by (simp add: map_upt_Suc del: upt_Suc)
    also have "\<dots> = take c xs #
          map (\<lambda>i. substring (drop c xs) (i * c) ((i + 1) * c)) [0..<ceil_div (length (drop c xs)) c]"
      by (simp only: shift) (simp add: substring_ordered)
    also have "\<dots> = take c xs # slices c (drop c xs)"
      using "1.IH" "1.prems" False by simp
    finally show ?thesis using False "1.prems" by (simp add: step slices_Cons)
  qed
qed

lemma foldl_append:
  "foldl (\<lambda>acc x. acc @ f x) acc0 xs = acc0 @ concat (map f xs)"
  by (induction xs arbitrary: acc0) simp_all

lemma length_hex: "length (concat (map toHex bs)) = 2 * length bs"
  by (induction bs) (simp_all add: toHex_def)

text \<open>The script as the preamble, the groups of the pieces and the closing lines.\<close>

lemma wrapCodeHex_groups:
  "wrapCodeHex (Bytes bs) saveTo append' =
     preamble (length bs)
     @ concat (map chunkGroup (slices 1024 (concat (map toHex bs))))
     @ (case saveTo of None \<Rightarrow> runLines | Some f \<Rightarrow> saveLines f append') \<and>
   length (concat (map toHex bs)) = 2 * length bs \<and>
   length (slices 1024 (concat (map toHex bs))) = ceil_div (2 * length bs) 1024 \<and>
   concat (slices 1024 (concat (map toHex bs))) = concat (map toHex bs) \<and>
   (\<forall>p \<in> set (slices 1024 (concat (map toHex bs))). p \<noteq> [] \<and> length p \<le> 1024)"
proof -
  let ?hex = "concat (map toHex bs)"
  have hex: "foldl (\<lambda>h b. h @ toHex b) [] bs = ?hex"
    by (simp add: foldl_append)
  have pieces: "map (\<lambda>i. substring ?hex (i * 1024) ((i + 1) * 1024))
                  [0..<ceil_div (length ?hex) 1024] = slices 1024 ?hex"
    by (rule pieces_by_index) simp
  have "foldl (\<lambda>out i. out @ chunkGroup (substring ?hex (i * 1024) ((i + 1) * 1024)))
                (preamble (length bs)) [0..<ceil_div (length ?hex) 1024] =
        preamble (length bs) @
        concat (map (\<lambda>i. chunkGroup (substring ?hex (i * 1024) ((i + 1) * 1024)))
                  [0..<ceil_div (length ?hex) 1024])"
    by (rule foldl_append)
  also have "concat (map (\<lambda>i. chunkGroup (substring ?hex (i * 1024) ((i + 1) * 1024)))
                  [0..<ceil_div (length ?hex) 1024]) =
             concat (map chunkGroup (map (\<lambda>i. substring ?hex (i * 1024) ((i + 1) * 1024))
                  [0..<ceil_div (length ?hex) 1024]))"
    by (simp add: comp_def)
  finally have loop: "foldl (\<lambda>out i. out @ chunkGroup (substring ?hex (i * 1024) ((i + 1) * 1024)))
                (preamble (length bs)) [0..<ceil_div (length ?hex) 1024] =
              preamble (length bs) @ concat (map chunkGroup (slices 1024 ?hex))"
    by (simp only: pieces)
  have a: "wrapCodeHex (Bytes bs) saveTo append' =
     preamble (length bs) @ concat (map chunkGroup (slices 1024 ?hex))
     @ (case saveTo of None \<Rightarrow> runLines | Some f \<Rightarrow> saveLines f append')"
    unfolding wrapCodeHex_def Let_def chunkSize_def
    by (simp only: binCode.case hex loop) (simp split: option.splits)
  have b: "length (slices 1024 ?hex) = ceil_div (2 * length bs) 1024"
    using arg_cong[OF pieces, of length] by (simp add: length_hex)
  have c: "concat (slices 1024 ?hex) = ?hex" by (rule concat_slices) simp
  have d: "\<forall>p \<in> set (slices 1024 ?hex). p \<noteq> [] \<and> length p \<le> 1024"
    using slices_bounds[of 1024 _ ?hex] by simp
  from a b c d length_hex[of bs] show ?thesis by blast
qed

lemma slices_two:
  assumes "length P = n" "0 < n" "s \<noteq> []" "length s \<le> n"
  shows "slices n (P @ s) = [P, s]"
proof -
  have "P @ s \<noteq> []" using assms by auto
  then have "slices n (P @ s) = take n (P @ s) # slices n (drop n (P @ s))"
    using assms(2) by (simp add: slices_Cons)
  also have "\<dots> = P # slices n s" using assms(1) by simp
  also have "slices n s = [s]" using assms(2,3,4) by (simp add: slices_Cons slices_Nil)
  finally show ?thesis .
qed

lemma length_concat_replicate: "length (concat (replicate k xs)) = k * length xs"
  by (induction k) simp_all

lemma of_char_digit: "d < 10 \<Longrightarrow> of_char (digit d) = 48 + d"
  by (simp add: digit_def)

lemma decimalValue_snoc:
  "decimalValue (s @ [c]) = 10 * decimalValue s + (of_char c - 48)"
  by (simp add: decimalValue_def)

lemma decimalValue_decimal: "decimalValue (decimal n) = n"
proof (induction n rule: decimal.induct)
  case (1 n)
  show ?case
  proof (cases "n < 10")
    case True
    then show ?thesis
      by (subst decimal.simps) (simp add: decimalValue_def of_char_digit)
  next
    case False
    then have "decimalValue (decimal n) =
               10 * decimalValue (decimal (n div 10)) + (of_char (digit (n mod 10)) - 48)"
      by (subst decimal.simps) (simp add: decimalValue_snoc)
    also have "\<dots> = 10 * (n div 10) + n mod 10"
      using "1.IH"[OF False] by (simp add: of_char_digit)
    finally show ?thesis by simp
  qed
qed

lemma hexValue_hexDigit: "d < 16 \<Longrightarrow> hexValue (hexDigit d) = d"
proof -
  assume "d < 16"
  then have "d = 0 \<or> d = 1 \<or> d = 2 \<or> d = 3 \<or> d = 4 \<or> d = 5 \<or> d = 6 \<or> d = 7 \<or>
             d = 8 \<or> d = 9 \<or> d = 10 \<or> d = 11 \<or> d = 12 \<or> d = 13 \<or> d = 14 \<or> d = 15"
    by presburger
  then show ?thesis
    by (elim disjE) (simp_all add: hexDigit_def hexValue_def)
qed

lemma byte_of_toHex:
  "of_nat (16 * hexValue (hd (toHex b)) + hexValue (last (toHex b))) = (b :: 8 word)"
proof -
  have u: "unat b < 256" using unsigned_less[of b] by simp
  then have "unat b div 16 < 16" and "unat b mod 16 < 16" by simp_all
  then have "16 * hexValue (hd (toHex b)) + hexValue (last (toHex b)) = unat b"
    by (simp add: toHex_def hexValue_hexDigit)
  then show ?thesis by simp
qed

lemma bytesOfHex_hex: "bytesOfHex (concat (map toHex bs)) = bs"
proof (induction bs)
  case Nil
  show ?case by (simp add: bytesOfHex_def slices_Nil)
next
  case (Cons b bs)
  have l: "length (toHex b) = 2" by (simp add: toHex_def)
  have "slices 2 (toHex b @ concat (map toHex bs)) =
        toHex b # slices 2 (concat (map toHex bs))"
    using l by (subst slices_Cons) (auto simp: toHex_def)
  then show ?case
    using Cons.IH byte_of_toHex[of b] by (simp add: bytesOfHex_def)
qed

text \<open>
  C8. For a payload of \<open>n\<close> bytes, the script of \<open>wrapCodeHex\<close> is made of these lines,
  each ended by CR LF. First the preamble, which allocates a byte buffer whose size
  is written as the decimal digits of \<open>n\<close> and sets the offset to 0. Then, for each
  piece of the hex text cut into pieces of at most 1024 characters, four lines: the
  piece as a literal, the loop that decodes each pair of hex digits into the byte at
  the running offset, the sentinel \<open>_EMPTY_\<close>, and the line that advances the offset,
  prints one dot and deletes the chunk. Last, without a destination, the three lines
  that decode and execute the buffer; with a destination, the lines that open it in
  mode \<open>wb\<close>, or \<open>ab\<close> when append is set, write the buffer and close the file. The
  hex text has \<open>2n\<close> characters, two digits for each byte, from which the bytes are
  read back, and there are \<open>\<lceil>2n / 1024\<rceil>\<close> pieces, none of them empty, which put
  together give the hex text.
\<close>

theorem wrapCodeHex_structure:
  "wrapCodeHex (Bytes bs) saveTo append' =
     concat (map (\<lambda>l. l @ [CHR 0x0D, CHR 0x0A])
       ([''import gc; gc.collect(); b_ = bytearray('' @ decimal (length bs) @ ''); bi_ = 0'']
        @ concat (map (\<lambda>p.
             [''c_ = b'' @ [CHR 0x27] @ p @ [CHR 0x27],
              ''for i in range(len(c_)//2): b_[bi_+i] = int(c_[2*i:2*i+2], 16).to_bytes(1, ''
                @ [CHR 0x27] @ ''little'' @ [CHR 0x27] @ '')[0]'',
              ''_EMPTY_'',
              ''bi_ += len(c_)//2; print('' @ [CHR 0x22] @ ''.'' @ [CHR 0x22] @ '', end=''
                @ [CHR 0x22, CHR 0x22] @ ''); del c_; gc.collect()''])
            (slices 1024 (concat (map toHex bs))))
        @ (case saveTo of
             None \<Rightarrow>
               [''print('' @ [CHR 0x22] @ '' Running.'' @ [CHR 0x22] @ ''); print(''
                  @ [CHR 0x22] @ ''--------'' @ [CHR 0x22] @ ''); b_ = b_.decode()'',
                ''exec(b_)'',
                ''del b_'']
           | Some f \<Rightarrow>
               [''f_ = open('' @ [CHR 0x27] @ f @ [CHR 0x27] @ '', '' @ [CHR 0x27]
                  @ (if append' then ''ab'' else ''wb'') @ [CHR 0x27] @ '')'',
                ''_ = f_.write(b_)'',
                ''f_.close();'',
                ''del f_; del b_; gc.collect(); print('' @ [CHR 0x22] @ '' Done.''
                  @ [CHR 0x22] @ '')'']))) \<and>
   decimalValue (decimal (length bs)) = length bs \<and>
   length (concat (map toHex bs)) = 2 * length bs \<and>
   bytesOfHex (concat (map toHex bs)) = bs \<and>
   length (slices 1024 (concat (map toHex bs))) = ceil_div (2 * length bs) 1024 \<and>
   concat (slices 1024 (concat (map toHex bs))) = concat (map toHex bs) \<and>
   (\<forall>p \<in> set (slices 1024 (concat (map toHex bs))). p \<noteq> [] \<and> length p \<le> 1024)"
proof -
  note g = wrapCodeHex_groups[of bs saveTo append']
  have group: "\<And>p. chunkGroup p =
      concat (map (\<lambda>l. l @ [CHR 0x0D, CHR 0x0A])
             [''c_ = b'' @ [CHR 0x27] @ p @ [CHR 0x27],
              ''for i in range(len(c_)//2): b_[bi_+i] = int(c_[2*i:2*i+2], 16).to_bytes(1, ''
                @ [CHR 0x27] @ ''little'' @ [CHR 0x27] @ '')[0]'',
              ''_EMPTY_'',
              ''bi_ += len(c_)//2; print('' @ [CHR 0x22] @ ''.'' @ [CHR 0x22] @ '', end=''
                @ [CHR 0x22, CHR 0x22] @ ''); del c_; gc.collect()''])"
    by (simp add: chunkGroup_def sq_def dq_def CRLF_def CR_def LF_def)
  have groups: "\<And>ps. concat (map chunkGroup ps) =
      concat (map (\<lambda>l. l @ [CHR 0x0D, CHR 0x0A])
        (concat (map (\<lambda>p.
             [''c_ = b'' @ [CHR 0x27] @ p @ [CHR 0x27],
              ''for i in range(len(c_)//2): b_[bi_+i] = int(c_[2*i:2*i+2], 16).to_bytes(1, ''
                @ [CHR 0x27] @ ''little'' @ [CHR 0x27] @ '')[0]'',
              ''_EMPTY_'',
              ''bi_ += len(c_)//2; print('' @ [CHR 0x22] @ ''.'' @ [CHR 0x22] @ '', end=''
                @ [CHR 0x22, CHR 0x22] @ ''); del c_; gc.collect()'']) ps)))"
  proof -
    fix ps show "?thesis ps"
      by (induction ps) (simp_all only: group list.map concat.simps map_append concat_append)
  qed
  have pre: "preamble (length bs) =
      concat (map (\<lambda>l. l @ [CHR 0x0D, CHR 0x0A])
        [''import gc; gc.collect(); b_ = bytearray('' @ decimal (length bs) @ ''); bi_ = 0''])"
    by (simp add: preamble_def CRLF_def CR_def LF_def)
  have run: "runLines =
      concat (map (\<lambda>l. l @ [CHR 0x0D, CHR 0x0A])
               [''print('' @ [CHR 0x22] @ '' Running.'' @ [CHR 0x22] @ ''); print(''
                  @ [CHR 0x22] @ ''--------'' @ [CHR 0x22] @ ''); b_ = b_.decode()'',
                ''exec(b_)'',
                ''del b_''])"
    by (simp add: runLines_def dq_def CRLF_def CR_def LF_def)
  have save: "\<And>f. saveLines f append' =
      concat (map (\<lambda>l. l @ [CHR 0x0D, CHR 0x0A])
               [''f_ = open('' @ [CHR 0x27] @ f @ [CHR 0x27] @ '', '' @ [CHR 0x27]
                  @ (if append' then ''ab'' else ''wb'') @ [CHR 0x27] @ '')'',
                ''_ = f_.write(b_)'',
                ''f_.close();'',
                ''del f_; del b_; gc.collect(); print('' @ [CHR 0x22] @ '' Done.''
                  @ [CHR 0x22] @ '')''])"
    by (simp add: saveLines_def sq_def dq_def CRLF_def CR_def LF_def Let_def)
  have script: "wrapCodeHex (Bytes bs) saveTo append' =
     concat (map (\<lambda>l. l @ [CHR 0x0D, CHR 0x0A])
       ([''import gc; gc.collect(); b_ = bytearray('' @ decimal (length bs) @ ''); bi_ = 0'']
        @ concat (map (\<lambda>p.
             [''c_ = b'' @ [CHR 0x27] @ p @ [CHR 0x27],
              ''for i in range(len(c_)//2): b_[bi_+i] = int(c_[2*i:2*i+2], 16).to_bytes(1, ''
                @ [CHR 0x27] @ ''little'' @ [CHR 0x27] @ '')[0]'',
              ''_EMPTY_'',
              ''bi_ += len(c_)//2; print('' @ [CHR 0x22] @ ''.'' @ [CHR 0x22] @ '', end=''
                @ [CHR 0x22, CHR 0x22] @ ''); del c_; gc.collect()''])
            (slices 1024 (concat (map toHex bs))))
        @ (case saveTo of
             None \<Rightarrow>
               [''print('' @ [CHR 0x22] @ '' Running.'' @ [CHR 0x22] @ ''); print(''
                  @ [CHR 0x22] @ ''--------'' @ [CHR 0x22] @ ''); b_ = b_.decode()'',
                ''exec(b_)'',
                ''del b_'']
           | Some f \<Rightarrow>
               [''f_ = open('' @ [CHR 0x27] @ f @ [CHR 0x27] @ '', '' @ [CHR 0x27]
                  @ (if append' then ''ab'' else ''wb'') @ [CHR 0x27] @ '')'',
                ''_ = f_.write(b_)'',
                ''f_.close();'',
                ''del f_; del b_; gc.collect(); print('' @ [CHR 0x22] @ '' Done.''
                  @ [CHR 0x22] @ '')''])))"
    unfolding conjunct1[OF g] pre groups
    by (cases saveTo) (simp_all only: option.case run save map_append concat_append)
  from script g decimalValue_decimal[of "length bs"] bytesOfHex_hex[of bs]
  show ?thesis by blast
qed

theorem wrapCodeHex_structure_witness:
  "wrapCodeHex (Bytes [0x0a, 0xff]) (Some ''f.py'') True =
     ''import gc; gc.collect(); b_ = bytearray(2); bi_ = 0'' @ [CHR 0x0D, CHR 0x0A] @
     ''c_ = b'' @ [CHR 0x27] @ ''0aff'' @ [CHR 0x27, CHR 0x0D, CHR 0x0A] @
     ''for i in range(len(c_)//2): b_[bi_+i] = int(c_[2*i:2*i+2], 16).to_bytes(1, '' @
     [CHR 0x27] @ ''little'' @ [CHR 0x27] @ '')[0]'' @ [CHR 0x0D, CHR 0x0A] @ ''_EMPTY_'' @
     [CHR 0x0D, CHR 0x0A] @ ''bi_ += len(c_)//2; print('' @ [CHR 0x22] @ ''.'' @ [CHR 0x22] @
     '', end='' @ [CHR 0x22, CHR 0x22] @ ''); del c_; gc.collect()'' @ [CHR 0x0D, CHR 0x0A] @
     ''f_ = open('' @ [CHR 0x27] @ ''f.py'' @ [CHR 0x27] @ '', '' @ [CHR 0x27] @ ''ab'' @
     [CHR 0x27] @ '')'' @ [CHR 0x0D, CHR 0x0A] @ ''_ = f_.write(b_)'' @ [CHR 0x0D, CHR 0x0A] @
     ''f_.close();'' @ [CHR 0x0D, CHR 0x0A] @ ''del f_; del b_; gc.collect(); print('' @
     [CHR 0x22] @ '' Done.'' @ [CHR 0x22] @ '')'' @ [CHR 0x0D, CHR 0x0A] \<and>
   wrapCodeHex (Bytes [0x0a, 0xff]) (Some ''f.py'') False =
     ''import gc; gc.collect(); b_ = bytearray(2); bi_ = 0'' @ [CHR 0x0D, CHR 0x0A] @
     ''c_ = b'' @ [CHR 0x27] @ ''0aff'' @ [CHR 0x27, CHR 0x0D, CHR 0x0A] @
     ''for i in range(len(c_)//2): b_[bi_+i] = int(c_[2*i:2*i+2], 16).to_bytes(1, '' @
     [CHR 0x27] @ ''little'' @ [CHR 0x27] @ '')[0]'' @ [CHR 0x0D, CHR 0x0A] @ ''_EMPTY_'' @
     [CHR 0x0D, CHR 0x0A] @ ''bi_ += len(c_)//2; print('' @ [CHR 0x22] @ ''.'' @ [CHR 0x22] @
     '', end='' @ [CHR 0x22, CHR 0x22] @ ''); del c_; gc.collect()'' @ [CHR 0x0D, CHR 0x0A] @
     ''f_ = open('' @ [CHR 0x27] @ ''f.py'' @ [CHR 0x27] @ '', '' @ [CHR 0x27] @ ''wb'' @
     [CHR 0x27] @ '')'' @ [CHR 0x0D, CHR 0x0A] @ ''_ = f_.write(b_)'' @ [CHR 0x0D, CHR 0x0A] @
     ''f_.close();'' @ [CHR 0x0D, CHR 0x0A] @ ''del f_; del b_; gc.collect(); print('' @
     [CHR 0x22] @ '' Done.'' @ [CHR 0x22] @ '')'' @ [CHR 0x0D, CHR 0x0A] \<and>
   wrapCodeHex (Bytes [0x0a, 0xff]) None False =
     ''import gc; gc.collect(); b_ = bytearray(2); bi_ = 0'' @ [CHR 0x0D, CHR 0x0A] @
     ''c_ = b'' @ [CHR 0x27] @ ''0aff'' @ [CHR 0x27, CHR 0x0D, CHR 0x0A] @
     ''for i in range(len(c_)//2): b_[bi_+i] = int(c_[2*i:2*i+2], 16).to_bytes(1, '' @
     [CHR 0x27] @ ''little'' @ [CHR 0x27] @ '')[0]'' @ [CHR 0x0D, CHR 0x0A] @ ''_EMPTY_'' @
     [CHR 0x0D, CHR 0x0A] @ ''bi_ += len(c_)//2; print('' @ [CHR 0x22] @ ''.'' @ [CHR 0x22] @
     '', end='' @ [CHR 0x22, CHR 0x22] @ ''); del c_; gc.collect()'' @ [CHR 0x0D, CHR 0x0A] @
     ''print('' @ [CHR 0x22] @ '' Running.'' @ [CHR 0x22] @ ''); print('' @ [CHR 0x22] @
     ''--------'' @ [CHR 0x22] @ ''); b_ = b_.decode()'' @ [CHR 0x0D, CHR 0x0A] @
     ''exec(b_)'' @ [CHR 0x0D, CHR 0x0A] @ ''del b_'' @ [CHR 0x0D, CHR 0x0A] \<and>
   slices 1024 (concat (map toHex (replicate 513 (0x61 :: 8 word)))) =
     [concat (replicate 512 ''61''), ''61''] \<and>
   ceil_div (2 * 513) 1024 = 2"
proof -
  have sl: "slices 1024 (concat (map toHex [0x0a, 0xff :: 8 word])) = [''0aff'']"
    by code_simp
  have d: "decimal (length [0x0a, 0xff :: 8 word]) = ''2''" by code_simp
  have h: "toHex (0x61 :: 8 word) = ''61''" by code_simp
  have r: "replicate 513 ''61'' = replicate 512 ''61'' @ [''61'']"
    using replicate_add[of 512 1 "''61''"] by simp
  have hex: "concat (map toHex (replicate 513 (0x61 :: 8 word))) =
             concat (replicate 512 ''61'') @ ''61''"
    by (simp only: map_replicate h r concat_append) simp
  have two: "slices 1024 (concat (map toHex (replicate 513 (0x61 :: 8 word)))) =
     [concat (replicate 512 ''61''), ''61'']"
    unfolding hex by (rule slices_two) (simp_all add: length_concat_replicate)
  have n: "ceil_div (2 * 513) 1024 = 2" by (simp add: ceil_div_def)
  have ab: "wrapCodeHex (Bytes [0x0a, 0xff]) (Some ''f.py'') True =
     ''import gc; gc.collect(); b_ = bytearray(2); bi_ = 0'' @ [CHR 0x0D, CHR 0x0A] @
     ''c_ = b'' @ [CHR 0x27] @ ''0aff'' @ [CHR 0x27, CHR 0x0D, CHR 0x0A] @
     ''for i in range(len(c_)//2): b_[bi_+i] = int(c_[2*i:2*i+2], 16).to_bytes(1, '' @
     [CHR 0x27] @ ''little'' @ [CHR 0x27] @ '')[0]'' @ [CHR 0x0D, CHR 0x0A] @ ''_EMPTY_'' @
     [CHR 0x0D, CHR 0x0A] @ ''bi_ += len(c_)//2; print('' @ [CHR 0x22] @ ''.'' @ [CHR 0x22] @
     '', end='' @ [CHR 0x22, CHR 0x22] @ ''); del c_; gc.collect()'' @ [CHR 0x0D, CHR 0x0A] @
     ''f_ = open('' @ [CHR 0x27] @ ''f.py'' @ [CHR 0x27] @ '', '' @ [CHR 0x27] @ ''ab'' @
     [CHR 0x27] @ '')'' @ [CHR 0x0D, CHR 0x0A] @ ''_ = f_.write(b_)'' @ [CHR 0x0D, CHR 0x0A] @
     ''f_.close();'' @ [CHR 0x0D, CHR 0x0A] @ ''del f_; del b_; gc.collect(); print('' @
     [CHR 0x22] @ '' Done.'' @ [CHR 0x22] @ '')'' @ [CHR 0x0D, CHR 0x0A]"
    unfolding conjunct1[OF wrapCodeHex_structure[of "[0x0a, 0xff]" "Some ''f.py''" True]] sl d
    by simp
  have wb: "wrapCodeHex (Bytes [0x0a, 0xff]) (Some ''f.py'') False =
     ''import gc; gc.collect(); b_ = bytearray(2); bi_ = 0'' @ [CHR 0x0D, CHR 0x0A] @
     ''c_ = b'' @ [CHR 0x27] @ ''0aff'' @ [CHR 0x27, CHR 0x0D, CHR 0x0A] @
     ''for i in range(len(c_)//2): b_[bi_+i] = int(c_[2*i:2*i+2], 16).to_bytes(1, '' @
     [CHR 0x27] @ ''little'' @ [CHR 0x27] @ '')[0]'' @ [CHR 0x0D, CHR 0x0A] @ ''_EMPTY_'' @
     [CHR 0x0D, CHR 0x0A] @ ''bi_ += len(c_)//2; print('' @ [CHR 0x22] @ ''.'' @ [CHR 0x22] @
     '', end='' @ [CHR 0x22, CHR 0x22] @ ''); del c_; gc.collect()'' @ [CHR 0x0D, CHR 0x0A] @
     ''f_ = open('' @ [CHR 0x27] @ ''f.py'' @ [CHR 0x27] @ '', '' @ [CHR 0x27] @ ''wb'' @
     [CHR 0x27] @ '')'' @ [CHR 0x0D, CHR 0x0A] @ ''_ = f_.write(b_)'' @ [CHR 0x0D, CHR 0x0A] @
     ''f_.close();'' @ [CHR 0x0D, CHR 0x0A] @ ''del f_; del b_; gc.collect(); print('' @
     [CHR 0x22] @ '' Done.'' @ [CHR 0x22] @ '')'' @ [CHR 0x0D, CHR 0x0A]"
    unfolding conjunct1[OF wrapCodeHex_structure[of "[0x0a, 0xff]" "Some ''f.py''" False]] sl d
    by simp
  have run: "wrapCodeHex (Bytes [0x0a, 0xff]) None False =
     ''import gc; gc.collect(); b_ = bytearray(2); bi_ = 0'' @ [CHR 0x0D, CHR 0x0A] @
     ''c_ = b'' @ [CHR 0x27] @ ''0aff'' @ [CHR 0x27, CHR 0x0D, CHR 0x0A] @
     ''for i in range(len(c_)//2): b_[bi_+i] = int(c_[2*i:2*i+2], 16).to_bytes(1, '' @
     [CHR 0x27] @ ''little'' @ [CHR 0x27] @ '')[0]'' @ [CHR 0x0D, CHR 0x0A] @ ''_EMPTY_'' @
     [CHR 0x0D, CHR 0x0A] @ ''bi_ += len(c_)//2; print('' @ [CHR 0x22] @ ''.'' @ [CHR 0x22] @
     '', end='' @ [CHR 0x22, CHR 0x22] @ ''); del c_; gc.collect()'' @ [CHR 0x0D, CHR 0x0A] @
     ''print('' @ [CHR 0x22] @ '' Running.'' @ [CHR 0x22] @ ''); print('' @ [CHR 0x22] @
     ''--------'' @ [CHR 0x22] @ ''); b_ = b_.decode()'' @ [CHR 0x0D, CHR 0x0A] @
     ''exec(b_)'' @ [CHR 0x0D, CHR 0x0A] @ ''del b_'' @ [CHR 0x0D, CHR 0x0A]"
    unfolding conjunct1[OF wrapCodeHex_structure[of "[0x0a, 0xff]" None False]] sl d
    by simp
  from ab wb run two n show ?thesis by blast
qed

end
